theory Spec2Isabelle
  imports Complex_Main "HOL-Library.Sublist" "HOL-Library.AList" "HOL-Library.Multiset"
    "HOL-Library.Option_ord" "HOL-Library.Code_Target_Nat"
begin

section \<open>JavaScript numbers\<close>

text \<open>
  A \<^verbatim>\<open>number\<close> is a value of the IEEE 754 binary64 format: a finite value, one of the
  two infinities, or \<^verbatim>\<open>NaN\<close>. The negative zero is not told apart from zero: nothing in
  the code below divides by a zero, which is where the two differ. The result of an
  arithmetic operation on finite values is the exact result rounded to the nearest
  value of the format, a tie going to the value with the even last place, and to an
  infinity from \<open>2 ^ 1024\<close> on; \<open>fl\<close> is that rounding.
\<close>

datatype number = Fin real | PosInf | NegInf | NaN

text \<open>
  The binary exponent of a positive value, found by halving or doubling it into the
  interval from 1 to 2. 1100 steps reach every exponent of the format; below the
  smallest normal exponent the last place stays that of the subnormal values.
\<close>

primrec norm_exp :: "nat \<Rightarrow> real \<Rightarrow> int" where
  "norm_exp 0 x = 0"
| "norm_exp (Suc n) x =
     (if 2 \<le> x then norm_exp n (x / 2) + 1
      else if x < 1 then norm_exp n (x * 2) - 1
      else 0)"

definition ulp_exp :: "real \<Rightarrow> int" where
  "ulp_exp x = max (norm_exp 1100 x) (- 1022) - 52"

definition round_even :: "real \<Rightarrow> int" where
  "round_even z =
     (let f = \<lfloor>z\<rfloor>; d = z - of_int f
      in if d < 1 / 2 then f else if 1 / 2 < d then f + 1 else if even f then f else f + 1)"

definition fl_pos :: "real \<Rightarrow> number" where
  "fl_pos x =
     (let s = 2 powi (ulp_exp x); y = of_int (round_even (x / s)) * s
      in if 2 ^ 1024 \<le> y then PosInf else Fin y)"

definition js_neg :: "number \<Rightarrow> number" where
  "js_neg a = (case a of Fin x \<Rightarrow> Fin (- x) | PosInf \<Rightarrow> NegInf | NegInf \<Rightarrow> PosInf | NaN \<Rightarrow> NaN)"

definition fl :: "real \<Rightarrow> number" where
  "fl x = (if x = 0 then Fin 0 else if 0 < x then fl_pos x else js_neg (fl_pos (- x)))"

text \<open>
  Every finite value of the format is a whole multiple of \<open>2 ^ - 1074\<close>, its smallest
  positive value.
\<close>

definition on_grid :: "real \<Rightarrow> bool" where
  "on_grid y = (y * 2 ^ 1074 = of_int \<lfloor>y * 2 ^ 1074\<rfloor>)"

text \<open>The operators \<^verbatim>\<open>+\<close>, \<^verbatim>\<open>-\<close>, \<^verbatim>\<open>*\<close> and \<^verbatim>\<open>/\<close> on numbers.\<close>

fun js_add :: "number \<Rightarrow> number \<Rightarrow> number" where
  "js_add (Fin x) (Fin y) = fl (x + y)"
| "js_add NaN b = NaN"
| "js_add a NaN = NaN"
| "js_add PosInf NegInf = NaN"
| "js_add NegInf PosInf = NaN"
| "js_add PosInf b = PosInf"
| "js_add a PosInf = PosInf"
| "js_add NegInf b = NegInf"
| "js_add a NegInf = NegInf"

definition js_sub :: "number \<Rightarrow> number \<Rightarrow> number" where
  "js_sub a b = js_add a (js_neg b)"

fun js_mul :: "number \<Rightarrow> number \<Rightarrow> number" where
  "js_mul (Fin x) (Fin y) = fl (x * y)"
| "js_mul NaN b = NaN"
| "js_mul a NaN = NaN"
| "js_mul (Fin x) b = (if x = 0 then NaN else if 0 < x then b else js_neg b)"
| "js_mul a (Fin y) = (if y = 0 then NaN else if 0 < y then a else js_neg a)"
| "js_mul PosInf b = b"
| "js_mul NegInf b = js_neg b"

fun js_div :: "number \<Rightarrow> number \<Rightarrow> number" where
  "js_div (Fin x) (Fin y) =
     (if y = 0 then (if x = 0 then NaN else if 0 < x then PosInf else NegInf) else fl (x / y))"
| "js_div NaN b = NaN"
| "js_div a NaN = NaN"
| "js_div (Fin x) b = Fin 0"
| "js_div a (Fin y) = (if 0 \<le> y then a else js_neg a)"
| "js_div a b = NaN"

text \<open>The comparisons; every comparison with \<^verbatim>\<open>NaN\<close> is false.\<close>

fun js_lt :: "number \<Rightarrow> number \<Rightarrow> bool" where
  "js_lt (Fin x) (Fin y) = (x < y)"
| "js_lt NaN b = False"
| "js_lt a NaN = False"
| "js_lt a NegInf = False"
| "js_lt PosInf b = False"
| "js_lt NegInf b = True"
| "js_lt a PosInf = True"

definition js_gt :: "number \<Rightarrow> number \<Rightarrow> bool" where
  "js_gt a b = js_lt b a"

definition js_ge :: "number \<Rightarrow> number \<Rightarrow> bool" where
  "js_ge a b = (a \<noteq> NaN \<and> b \<noteq> NaN \<and> \<not> js_lt a b)"

text \<open>A number in a condition: zero and \<^verbatim>\<open>NaN\<close> are falsy. \<^verbatim>\<open>n || d\<close> on numbers.\<close>

definition truthy :: "number \<Rightarrow> bool" where
  "truthy a = (a \<noteq> NaN \<and> a \<noteq> Fin 0)"

definition or_num :: "number \<Rightarrow> number \<Rightarrow> number" where
  "or_num n d = (if truthy n then n else d)"

text \<open>
  \<^verbatim>\<open>Math.round\<close>: the nearest integer, a half going upwards; it is computed exactly.
  \<^verbatim>\<open>Math.max\<close> of the elements of a list: \<^verbatim>\<open>-Infinity\<close> for none, \<^verbatim>\<open>NaN\<close> if one of them is.
\<close>

definition Math_round :: "number \<Rightarrow> number" where
  "Math_round a = (case a of Fin x \<Rightarrow> Fin (of_int \<lfloor>x + 1 / 2\<rfloor>) | _ \<Rightarrow> a)"

definition max2 :: "number \<Rightarrow> number \<Rightarrow> number" where
  "max2 a b = (if a = NaN \<or> b = NaN then NaN else if js_lt a b then b else a)"

definition Math_max :: "number list \<Rightarrow> number" where
  "Math_max xs = fold (\<lambda>x acc. max2 acc x) xs NegInf"

text \<open>A property that may be \<^verbatim>\<open>undefined\<close>, read as a number.\<close>

definition ToNumber :: "number option \<Rightarrow> number" where
  "ToNumber a = (case a of None \<Rightarrow> NaN | Some n \<Rightarrow> n)"


section \<open>Duration parser (src/utils.ts, parseDuration)\<close>

text \<open>
  Strings are lists of characters. The regular expression of the source is
  \<^verbatim>\<open>/PT(\d+H)?(\d+M)?(\d+S)?/\<close>: it is not anchored, so \<^verbatim>\<open>String.prototype.match\<close>
  scans for the leftmost occurrence of \<^verbatim>\<open>PT\<close>; each of the three groups is
  optional and greedy, and since everything after \<^verbatim>\<open>PT\<close> is optional the matcher
  never has to backtrack over a group it has taken.
\<close>

definition is_digit :: "char \<Rightarrow> bool" where
  "is_digit c = (48 \<le> (of_char c :: nat) \<and> (of_char c :: nat) \<le> 57)"

definition digit_val :: "char \<Rightarrow> nat" where
  "digit_val c = of_char c - 48"

definition dec_val :: "string \<Rightarrow> nat" where
  "dec_val ds = foldl (\<lambda>n c. 10 * n + digit_val c) 0 ds"

text \<open>
  One optional group \<^verbatim>\<open>(\d+X)?\<close> tried at the head of the remaining input:
  the captured text (with its letter) and what is left of the input.
\<close>

definition regex_group :: "char \<Rightarrow> string \<Rightarrow> string option \<times> string" where
  "regex_group X s =
     (let ds = takeWhile is_digit s; r = dropWhile is_digit s
      in if ds \<noteq> [] \<and> r \<noteq> [] \<and> hd r = X then (Some (ds @ [X]), tl r) else (None, s))"

definition regex_groups :: "string \<Rightarrow> string option \<times> string option \<times> string option" where
  "regex_groups s =
     (let (g1, r1) = regex_group (CHR ''H'') s;
          (g2, r2) = regex_group (CHR ''M'') r1;
          (g3, r3) = regex_group (CHR ''S'') r2
      in (g1, g2, g3))"

text \<open>\<^verbatim>\<open>duration.match(...)\<close>: \<open>None\<close> is the \<^verbatim>\<open>null\<close> of no match.\<close>

fun duration_match :: "string \<Rightarrow> (string option \<times> string option \<times> string option) option" where
  "duration_match [] = None"
| "duration_match (c # cs) =
     (if c = CHR ''P'' \<and> cs \<noteq> [] \<and> hd cs = CHR ''T'' then Some (regex_groups (tl cs))
      else duration_match cs)"

text \<open>
  \<^verbatim>\<open>parseInt\<close> on the strings this file gives it: the leading decimal digits are
  read and whatever follows them is ignored; without a leading digit the result is
  \<^verbatim>\<open>NaN\<close>. The result is the number nearest to the integer that the digits write, an
  infinity when they write more than the format holds. (Signs, leading blanks and a
  radix prefix are left out: a captured group starts with a digit and ends with its
  letter. Past the twentieth digit an engine may read a digit as 0; the model reads
  every digit.)
\<close>

definition parseInt :: "string \<Rightarrow> number" where
  "parseInt s =
     (let ds = takeWhile is_digit s
      in if ds = [] then NaN else fl (real (dec_val ds)))"

text \<open>\<^verbatim>\<open>match[i] || '0'\<close>: an undefined or empty capture is replaced.\<close>

definition or_str :: "string option \<Rightarrow> string \<Rightarrow> string" where
  "or_str g d = (case g of None \<Rightarrow> d | Some s \<Rightarrow> if s = [] then d else s)"

definition parseDuration :: "string \<Rightarrow> number" where
  "parseDuration duration =
     (case duration_match duration of
        None \<Rightarrow> Fin 0
      | Some (m1, m2, m3) \<Rightarrow>
          (let hours = or_num (parseInt (or_str m1 ''0'')) (Fin 0);
               minutes = or_num (parseInt (or_str m2 ''0'')) (Fin 0);
               seconds = or_num (parseInt (or_str m3 ''0'')) (Fin 0)
           in js_add (js_add (js_mul hours (Fin 3600)) (js_mul minutes (Fin 60))) seconds))"

text \<open>
  The statement of what the parser reads uses the following vocabulary: a group is
  either missing or a non-empty run of decimal digits; \<open>group_text\<close> writes it with
  its letter and \<open>group_val\<close> is the integer that its digits write, zero when the
  group is missing.
\<close>

definition digits_ok :: "string \<Rightarrow> bool" where
  "digits_ok ds = (ds \<noteq> [] \<and> list_all is_digit ds)"

definition group_ok :: "string option \<Rightarrow> bool" where
  "group_ok g = (case g of None \<Rightarrow> True | Some ds \<Rightarrow> digits_ok ds)"

definition group_text :: "char \<Rightarrow> string option \<Rightarrow> string" where
  "group_text X g = (case g of None \<Rightarrow> [] | Some ds \<Rightarrow> ds @ [X])"

definition group_val :: "string option \<Rightarrow> nat" where
  "group_val g = (case g of None \<Rightarrow> 0 | Some ds \<Rightarrow> dec_val ds)"
section \<open>The records of the application (src/views/OpportunityFinder.tsx, second part)\<close>

text \<open>
  The interfaces \<^verbatim>\<open>YouTubeVideo\<close>, \<^verbatim>\<open>YouTubeChannel\<close> and \<^verbatim>\<open>RisingChannelResult\<close> and
  the types \<^verbatim>\<open>RisingPeriod\<close> and \<^verbatim>\<open>VideoTypeFilter\<close>, as the source declares them: a
  \<^verbatim>\<open>number\<close> is a number, a timestamp is its text, an optional property is an option.
  (\<^verbatim>\<open>id\<close> and the properties that two interfaces share carry the name of their
  record. A thumbnail is declared a string and is \<^verbatim>\<open>undefined\<close> where the service has
  none: \<^verbatim>\<open>thumbnails.medium?.url\<close>.)
\<close>

record YouTubeVideo =
  video_id :: string
  title :: string
  description :: string
  thumbnail :: "string option"
  publishedAt :: string
  channelId :: string
  channelTitle :: string
  viewCount :: number
  likeCount :: number
  commentCount :: number
  duration :: string
  tags :: "string list"
  popularityScore :: "number option"

record YouTubeChannel =
  channel_id :: string
  channel_title :: string
  channel_description :: string
  channel_thumbnail :: "string option"
  subscriberCount :: number
  videoCount :: number
  channel_viewCount :: number
  country :: "string option"
  channel_publishedAt :: "string option"

record RisingChannelResult =
  details :: YouTubeChannel
  topVideo :: YouTubeVideo
  topVideoViews :: number
  score :: number

datatype RisingPeriod = Period_3m | Period_6m | Period_1y | Period_all

datatype VideoTypeFilter = Type_all | Type_video | Type_shorts

text \<open>
  The counts of a video record in the data model of the specification are
  non-negative integers; \<open>count_ok\<close> says so of a number.
\<close>

definition count_ok :: "number \<Rightarrow> bool" where
  "count_ok n = (case n of Fin x \<Rightarrow> 0 \<le> x \<and> of_int \<lfloor>x\<rfloor> = x | _ \<Rightarrow> False)"

definition counts_ok :: "YouTubeVideo \<Rightarrow> bool" where
  "counts_ok v = (count_ok (viewCount v) \<and> count_ok (likeCount v) \<and> count_ok (commentCount v))"


section \<open>Dates of the runtime\<close>

text \<open>
  What \<^verbatim>\<open>Date\<close> gives depends on the clock and on the time zone of the host, which are
  parameters of the model. A date is its time value, in milliseconds since the epoch.
  \<open>Date_reading1\<close>, \<open>Date_reading2\<close> and \<open>Date_reading3\<close> are the values of the three
  \<^verbatim>\<open>new Date()\<close> of \<^verbatim>\<open>findRisingChannels\<close>, in the order of the source; \<open>getDate\<close> is the
  day of the month of a date on the local calendar and \<open>setDate\<close> the date that
  \<^verbatim>\<open>Date.prototype.setDate\<close> leaves; \<open>Date_parse\<close> is the time value of
  \<^verbatim>\<open>new Date(text)\<close>, \<open>None\<close> for an invalid date.
\<close>

record Host =
  Date_reading1 :: int
  Date_reading2 :: int
  Date_reading3 :: int
  getDate :: "int \<Rightarrow> int"
  setDate :: "int \<Rightarrow> int \<Rightarrow> int"
  Date_parse :: "string \<Rightarrow> int option"

text \<open>\<^verbatim>\<open>new Date(text).getTime()\<close>: \<^verbatim>\<open>NaN\<close> for an invalid date.\<close>

definition getTime :: "Host \<Rightarrow> string \<Rightarrow> number" where
  "getTime host s = (case Date_parse host s of None \<Rightarrow> NaN | Some t \<Rightarrow> Fin (of_int t))"


section \<open>The popularity scorer (src/views)\<close>

text \<open>
  \<^verbatim>\<open>calculateVideoScore\<close>, the same text in ChannelAnalysis.tsx and
  KeywordAnalysis.tsx. A maximum that is zero or \<^verbatim>\<open>NaN\<close> is falsy, which is the guard
  of each division.
\<close>

definition calculateVideoScore :: "YouTubeVideo \<Rightarrow> number \<Rightarrow> number \<Rightarrow> number \<Rightarrow> number" where
  "calculateVideoScore v maxViews maxLikes maxComments =
     (let viewScore = (if truthy maxViews then js_mul (js_div (viewCount v) maxViews) (Fin 50) else Fin 0);
          likeScore = (if truthy maxLikes then js_mul (js_div (likeCount v) maxLikes) (Fin 30) else Fin 0);
          commentScore =
            (if truthy maxComments then js_mul (js_div (commentCount v) maxComments) (Fin 20) else Fin 0)
      in Math_round (js_add (js_add viewScore likeScore) commentScore))"

text \<open>
  \<^verbatim>\<open>processedVideos\<close> of ChannelAnalysis.tsx; the object \<^verbatim>\<open>{...v, popularityScore: ...}\<close>
  is the record with that property set.
\<close>

definition processedVideos :: "YouTubeVideo list \<Rightarrow> YouTubeVideo list" where
  "processedVideos videos =
     (if videos = [] then []
      else let maxViews = Math_max (map viewCount videos);
               maxLikes = Math_max (map likeCount videos);
               maxComments = Math_max (map commentCount videos)
           in map (\<lambda>v. v\<lparr>popularityScore := Some (calculateVideoScore v maxViews maxLikes maxComments)\<rparr>)
                videos)"


section \<open>Filtering and sorting (src/views)\<close>

text \<open>
  \<^verbatim>\<open>Array.prototype.sort(cmp)\<close>. ECMAScript requires the sort to be stable, and for a
  consistent comparator the result is the one stable arrangement in which no element
  is followed by one that the comparator puts before it; insertion from the right
  computes it. An element goes in front of the first one that it does not come
  after; a comparator value of \<^verbatim>\<open>NaN\<close> counts as 0.
\<close>

fun sort_insert :: "('a \<Rightarrow> 'a \<Rightarrow> number) \<Rightarrow> 'a \<Rightarrow> 'a list \<Rightarrow> 'a list" where
  "sort_insert cmp x [] = [x]"
| "sort_insert cmp x (y # ys) =
     (if js_gt (cmp x y) (Fin 0) then y # sort_insert cmp x ys else x # y # ys)"

definition js_sort :: "('a \<Rightarrow> 'a \<Rightarrow> number) \<Rightarrow> 'a list \<Rightarrow> 'a list" where
  "js_sort cmp xs = foldr (sort_insert cmp) xs []"

datatype FilterOption = Filter_all | Filter_video | Filter_shorts

datatype SortOption = Sort_popularity | Sort_views | Sort_date_desc | Sort_date_asc

text \<open>
  \<^verbatim>\<open>sortedVideos\<close> of ChannelAnalysis.tsx, in its two steps: ``1. Filter'' and
  ``2. Sort''.
\<close>

definition filterVideos :: "FilterOption \<Rightarrow> YouTubeVideo list \<Rightarrow> YouTubeVideo list" where
  "filterVideos filterOption result =
     (case filterOption of
        Filter_shorts \<Rightarrow> filter (\<lambda>v. js_lt (parseDuration (duration v)) (Fin 180)) result
      | Filter_video \<Rightarrow> filter (\<lambda>v. js_ge (parseDuration (duration v)) (Fin 180)) result
      | Filter_all \<Rightarrow> result)"

definition sortVideos :: "Host \<Rightarrow> SortOption \<Rightarrow> YouTubeVideo list \<Rightarrow> YouTubeVideo list" where
  "sortVideos host sortOption result =
     (case sortOption of
        Sort_popularity \<Rightarrow>
          js_sort (\<lambda>a b. js_sub (ToNumber (popularityScore b)) (ToNumber (popularityScore a))) result
      | Sort_views \<Rightarrow> js_sort (\<lambda>a b. js_sub (viewCount b) (viewCount a)) result
      | Sort_date_desc \<Rightarrow>
          js_sort (\<lambda>a b. js_sub (getTime host (publishedAt b)) (getTime host (publishedAt a))) result
      | Sort_date_asc \<Rightarrow>
          js_sort (\<lambda>a b. js_sub (getTime host (publishedAt a)) (getTime host (publishedAt b))) result)"

definition sortedVideos ::
  "Host \<Rightarrow> FilterOption \<Rightarrow> SortOption \<Rightarrow> YouTubeVideo list \<Rightarrow> YouTubeVideo list" where
  "sortedVideos host filterOption sortOption processed =
     sortVideos host sortOption (filterVideos filterOption processed)"

text \<open>
  \<^verbatim>\<open>processedVideos\<close> of KeywordAnalysis.tsx: the scores, computed as in the other
  view, then ``2. Filter Type'', then ``3. Sort'', with the sort options of that view.
\<close>

datatype KeywordSortOption = KSort_popularity | KSort_views | KSort_date

definition keyword_filter :: "VideoTypeFilter \<Rightarrow> YouTubeVideo list \<Rightarrow> YouTubeVideo list" where
  "keyword_filter videoType withScores =
     filter (\<lambda>v. let isShort = js_lt (parseDuration (duration v)) (Fin 180)
                  in if videoType = Type_shorts then isShort
                     else if videoType = Type_video then \<not> isShort
                     else True) withScores"

definition keyword_sort :: "Host \<Rightarrow> KeywordSortOption \<Rightarrow> YouTubeVideo list \<Rightarrow> YouTubeVideo list" where
  "keyword_sort host sortOption filtered =
     js_sort (\<lambda>a b. if sortOption = KSort_popularity
                     then js_sub (ToNumber (popularityScore b)) (ToNumber (popularityScore a))
                     else if sortOption = KSort_date
                     then js_sub (getTime host (publishedAt b)) (getTime host (publishedAt a))
                     else js_sub (viewCount b) (viewCount a)) filtered"

definition processedVideos_keyword ::
  "Host \<Rightarrow> VideoTypeFilter \<Rightarrow> KeywordSortOption \<Rightarrow> YouTubeVideo list \<Rightarrow> YouTubeVideo list" where
  "processedVideos_keyword host videoType sortOption videos =
     (if videos = [] then []
      else keyword_sort host sortOption (keyword_filter videoType (processedVideos videos)))"
section \<open>Rising-channel aggregator (findRisingChannels)\<close>

subsection \<open>The remote service\<close>

text \<open>
  The three requests of \<^verbatim>\<open>findRisingChannels\<close> go to the video service. A response is
  the \<^verbatim>\<open>items\<close> array of the JSON body, \<open>None\<close> when the body has none. The items
  are untyped JSON in the source; the records below hold the fields that the code
  reads. A count is the value that \<^verbatim>\<open>parseInt\<close> reads from the service's text, \<open>None\<close>
  when the field is missing or not a number (\<^verbatim>\<open>NaN\<close>); a timestamp is its text, \<open>None\<close>
  where a channel item has none. A request that fails throws in the source and
  produces no result; the model covers the requests that are answered.
\<close>

record SearchItem =
  search_channelId :: string
  search_videoId :: string

record ChannelItem =
  ci_id :: string
  ci_title :: string
  ci_description :: string
  ci_thumbnail :: "string option"
  ci_subscriberCount :: "nat option"
  ci_videoCount :: "nat option"
  ci_viewCount :: "nat option"
  ci_country :: "string option"
  ci_publishedAt :: "string option"

record VideoItem =
  vi_id :: string
  vi_title :: string
  vi_description :: "string option"
  vi_thumbnail :: "string option"
  vi_publishedAt :: string
  vi_channelId :: string
  vi_channelTitle :: string
  vi_viewCount :: "nat option"
  vi_likeCount :: "nat option"
  vi_commentCount :: "nat option"
  vi_duration :: string
  vi_tags :: "string list option"

text \<open>The number that \<^verbatim>\<open>parseInt\<close> returned for a count.\<close>

definition count_number :: "nat option \<Rightarrow> number" where
  "count_number c = (case c of None \<Rightarrow> NaN | Some n \<Rightarrow> Fin (real n))"

text \<open>
  The search request: the parameters that the code puts into the URL besides the
  constant ones (\<^verbatim>\<open>type=video\<close>, \<^verbatim>\<open>order=viewCount\<close>, \<^verbatim>\<open>maxResults=50\<close>);
  \<open>req_publishedAfter\<close> is the date whose ISO text the URL carries.
\<close>

record SearchRequest =
  req_q :: string
  req_publishedAfter :: int
  req_videoCategoryId :: "string option"
  req_regionCode :: "string option"
  req_videoDuration :: "string option"

record Remote =
  search_response :: "SearchRequest \<Rightarrow> SearchItem list option"
  channels_response :: "string \<Rightarrow> ChannelItem list option"
  videos_response :: "string \<Rightarrow> VideoItem list option"

text \<open>The requests issued, in order: what the function does besides returning.\<close>

datatype Call = SearchCall SearchRequest | ChannelsCall string | VideosCall string

subsection \<open>Helpers of the JavaScript library\<close>

text \<open>\<^verbatim>\<open>Array.prototype.join\<close>.\<close>

fun join :: "string \<Rightarrow> string list \<Rightarrow> string" where
  "join sep [] = []"
| "join sep [x] = x"
| "join sep (x # y # ys) = x @ sep @ join sep (y # ys)"

text \<open>
  A \<^verbatim>\<open>Set\<close> and a \<^verbatim>\<open>Map\<close> keep their entries in insertion order: a list without
  repetitions and an association list. \<^verbatim>\<open>Map.prototype.set\<close> replaces the value of a
  key that is present in place and appends a new key, which is \<open>AList.update\<close>;
  \<^verbatim>\<open>Map.prototype.get\<close> is \<open>map_of\<close>.
\<close>

definition set_add :: "'a \<Rightarrow> 'a list \<Rightarrow> 'a list" where
  "set_add x xs = (if x \<in> set xs then xs else xs @ [x])"

definition new_Map :: "('k \<times> 'v) list \<Rightarrow> ('k \<times> 'v) list" where
  "new_Map entries = fold (\<lambda>(k, v) m. AList.update k v m) entries []"

subsection \<open>The aggregator\<close>

text \<open>
  \<^verbatim>\<open>getVideoDetails\<close>: no request for an empty identifier text; the requests issued
  and the normalised records.
\<close>

definition video_of_item :: "VideoItem \<Rightarrow> YouTubeVideo" where
  "video_of_item item =
     \<lparr>video_id = vi_id item,
      title = vi_title item,
      description = (case vi_description item of None \<Rightarrow> [] | Some d \<Rightarrow> d),
      thumbnail = vi_thumbnail item,
      publishedAt = vi_publishedAt item,
      channelId = vi_channelId item,
      channelTitle = vi_channelTitle item,
      viewCount = or_num (count_number (vi_viewCount item)) (Fin 0),
      likeCount = or_num (count_number (vi_likeCount item)) (Fin 0),
      commentCount = or_num (count_number (vi_commentCount item)) (Fin 0),
      duration = vi_duration item,
      tags = (case vi_tags item of None \<Rightarrow> [] | Some ts \<Rightarrow> ts),
      popularityScore = None\<rparr>"

definition getVideoDetails :: "Remote \<Rightarrow> string \<Rightarrow> Call list \<times> YouTubeVideo list" where
  "getVideoDetails remote videoIds =
     (if videoIds = [] then ([], [])
      else case videos_response remote videoIds of
             None \<Rightarrow> ([VideosCall videoIds], [])
           | Some items \<Rightarrow> ([VideosCall videoIds], map video_of_item items))"

text \<open>
  ``1. Calculate Date Thresholds'': \<^verbatim>\<open>now\<close> is the first reading of the clock,
  \<^verbatim>\<open>publishedAfterDate\<close> starts as the second and \<^verbatim>\<open>channelCreationCutoff\<close> as the third,
  and \<^verbatim>\<open>d.setDate(now.getDate() - n)\<close> moves each on the local calendar.
  \<^verbatim>\<open>new Date(0)\<close> is the epoch.
\<close>

definition channelCreationCutoff :: "Host \<Rightarrow> RisingPeriod \<Rightarrow> int" where
  "channelCreationCutoff host period =
     (case period of
        Period_3m \<Rightarrow> setDate host (Date_reading3 host) (getDate host (Date_reading1 host) - 90)
      | Period_6m \<Rightarrow> setDate host (Date_reading3 host) (getDate host (Date_reading1 host) - 180)
      | Period_1y \<Rightarrow> setDate host (Date_reading3 host) (getDate host (Date_reading1 host) - 365)
      | Period_all \<Rightarrow> 0)"

definition publishedAfterDate :: "Host \<Rightarrow> RisingPeriod \<Rightarrow> int" where
  "publishedAfterDate host period =
     (case period of
        Period_3m \<Rightarrow> setDate host (Date_reading2 host) (getDate host (Date_reading1 host) - 90)
      | Period_6m \<Rightarrow> setDate host (Date_reading2 host) (getDate host (Date_reading1 host) - 180)
      | Period_1y \<Rightarrow> setDate host (Date_reading2 host) (getDate host (Date_reading1 host) - 365)
      | Period_all \<Rightarrow> setDate host (Date_reading2 host) (getDate host (Date_reading1 host) - 365))"

text \<open>``2. Build Search URL''.\<close>

definition searchRequest ::
  "Host \<Rightarrow> string \<Rightarrow> string \<Rightarrow> RisingPeriod \<Rightarrow> string \<Rightarrow> VideoTypeFilter \<Rightarrow> SearchRequest" where
  "searchRequest host query categoryId period region videoType =
     \<lparr>req_q = query,
      req_publishedAfter = publishedAfterDate host period,
      req_videoCategoryId = (if categoryId \<noteq> [] then Some categoryId else None),
      req_regionCode = (if region \<noteq> ''Global'' then Some region else None),
      req_videoDuration =
        (if videoType = Type_shorts then Some ''short''
         else if videoType = Type_video then Some ''medium'' else None)\<rparr>"

text \<open>
  ``3. Extract unique channel IDs and Map Best Video'': the body of the loop over
  the search results, on the pair of \<^verbatim>\<open>channelIdsSet\<close> and \<^verbatim>\<open>videoMap\<close>.
\<close>

definition collect_item ::
  "SearchItem \<Rightarrow> string list \<times> (string \<times> string) list \<Rightarrow> string list \<times> (string \<times> string) list" where
  "collect_item item st =
     (let chId = search_channelId item; channelIdsSet = fst st; videoMap = snd st
      in if chId \<notin> set channelIdsSet
         then (set_add chId channelIdsSet, AList.update chId (search_videoId item) videoMap)
         else st)"

definition collect_items :: "SearchItem list \<Rightarrow> string list \<times> (string \<times> string) list" where
  "collect_items items = fold collect_item items ([], [])"

text \<open>
  The body of the loop over the channel items, steps 6 and after: \<open>None\<close> when the
  channel is left out, the result pushed otherwise. \<^verbatim>\<open>new Date(undefined)\<close> is an
  invalid date, and a comparison with an invalid date is false.
\<close>

definition risingChannel ::
  "Host \<Rightarrow> int \<Rightarrow> (string \<times> string) list \<Rightarrow> (string \<times> YouTubeVideo) list \<Rightarrow> ChannelItem
     \<Rightarrow> RisingChannelResult option" where
  "risingChannel host cutoff videoMap videoDetailsMap item =
     (let created = (case ci_publishedAt item of None \<Rightarrow> None | Some s \<Rightarrow> Date_parse host s)
      in if (case created of None \<Rightarrow> False | Some t \<Rightarrow> t \<ge> cutoff)
         then
           (let fullVideo =
                  (case map_of videoMap (ci_id item) of
                     None \<Rightarrow> None
                   | Some videoId \<Rightarrow> if videoId \<noteq> [] then map_of videoDetailsMap videoId else None)
            in case fullVideo of
                 None \<Rightarrow> None
               | Some fullVideo \<Rightarrow>
                   (let subCount = or_num (count_number (ci_subscriberCount item)) (Fin 1);
                        channelObj =
                          \<lparr>channel_id = ci_id item,
                           channel_title = ci_title item,
                           channel_description = ci_description item,
                           channel_thumbnail = ci_thumbnail item,
                           subscriberCount = subCount,
                           videoCount = count_number (ci_videoCount item),
                           channel_viewCount = count_number (ci_viewCount item),
                           country = ci_country item,
                           channel_publishedAt = ci_publishedAt item\<rparr>;
                        ratio = (if js_gt subCount (Fin 0)
                                 then js_div (viewCount fullVideo) subCount else Fin 0)
                    in Some \<lparr>details = channelObj, topVideo = fullVideo,
                             topVideoViews = viewCount fullVideo, score = ratio\<rparr>))
         else None)"

definition findRisingChannels ::
  "Host \<Rightarrow> Remote \<Rightarrow> string \<Rightarrow> string \<Rightarrow> RisingPeriod \<Rightarrow> string \<Rightarrow> VideoTypeFilter
     \<Rightarrow> Call list \<times> RisingChannelResult list" where
  "findRisingChannels host remote query categoryId period region videoType =
     (let cutoff = channelCreationCutoff host period;
          request = searchRequest host query categoryId period region videoType
      in case search_response remote request of
           None \<Rightarrow> ([SearchCall request], [])
         | Some items \<Rightarrow>
             (let (channelIdsSet, videoMap) = collect_items items;
                  channelIds = take 40 channelIdsSet
              in if channelIds = [] then ([SearchCall request], [])
                 else case channels_response remote (join '','' channelIds) of
                        None \<Rightarrow> ([SearchCall request, ChannelsCall (join '','' channelIds)], [])
                      | Some chItems \<Rightarrow>
                          (let videoIdsToFetch = join '','' (map snd videoMap);
                               (calls, videoDetails) = getVideoDetails remote videoIdsToFetch;
                               videoDetailsMap = new_Map (map (\<lambda>v. (video_id v, v)) videoDetails);
                               risingChannels =
                                 List.map_filter
                                   (risingChannel host cutoff videoMap videoDetailsMap) chItems
                           in ([SearchCall request, ChannelsCall (join '','' channelIds)] @ calls,
                               js_sort (\<lambda>a b. js_sub (score b) (score a)) risingChannels))))"

subsection \<open>Names for the intermediate values\<close>

text \<open>
  The identifiers that the channel request asks for and the \<^verbatim>\<open>videoDetailsMap\<close>, as
  \<^verbatim>\<open>findRisingChannels\<close> computes them from the search results; the subscriber
  count of a channel item, 0 where the service gives none; the milliseconds of a day
  of 24 hours; and whether the loop keeps a channel item.
\<close>

definition requested_channelIds :: "SearchItem list \<Rightarrow> string list" where
  "requested_channelIds items = take 40 (fst (collect_items items))"

definition videoDetailsMap_of :: "Remote \<Rightarrow> SearchItem list \<Rightarrow> (string \<times> YouTubeVideo) list" where
  "videoDetailsMap_of remote items =
     new_Map (map (\<lambda>v. (video_id v, v))
       (snd (getVideoDetails remote (join '','' (map snd (snd (collect_items items)))))))"

definition subscribers :: "ChannelItem \<Rightarrow> nat" where
  "subscribers item = (case ci_subscriberCount item of None \<Rightarrow> 0 | Some n \<Rightarrow> n)"

definition day_ms :: int where
  "day_ms = 86400000"

definition kept :: "Host \<Rightarrow> Remote \<Rightarrow> RisingPeriod \<Rightarrow> SearchItem list \<Rightarrow> ChannelItem \<Rightarrow> bool" where
  "kept host remote period items item =
     (risingChannel host (channelCreationCutoff host period) (snd (collect_items items))
        (videoDetailsMap_of remote items) item \<noteq> None)"
section \<open>Delimited-text exporter (src/utils.ts, downloadCSV)\<close>

text \<open>
  An object is the list of its own properties in their order, which is the order of
  \<^verbatim>\<open>Object.keys\<close> and \<^verbatim>\<open>Object.values\<close>. The conversion \<^verbatim>\<open>String(v)\<close> of a value is a
  parameter of the model. Text is the sequence of bytes that the \<^verbatim>\<open>Blob\<close> holds, in
  UTF-8: the byte-order mark U+FEFF is the three bytes EF BB BF, and the quote,
  the comma and the line feed are single bytes that occur in no longer sequence.
\<close>

abbreviation dquote :: char where
  "dquote \<equiv> CHR 0x22"

abbreviation comma :: char where
  "comma \<equiv> CHR 0x2C"

abbreviation newline :: char where
  "newline \<equiv> CHR 0x0A"

definition BOM :: string where
  "BOM = [CHR 0xEF, CHR 0xBB, CHR 0xBF]"

definition Object_keys :: "(string \<times> 'v) list \<Rightarrow> string list" where
  "Object_keys obj = map fst obj"

definition Object_values :: "(string \<times> 'v) list \<Rightarrow> 'v list" where
  "Object_values obj = map snd obj"

text \<open>\<^verbatim>\<open>s.replace(/"/g, '""')\<close>.\<close>

fun replace_quotes :: "string \<Rightarrow> string" where
  "replace_quotes [] = []"
| "replace_quotes (c # cs) =
     (if c = dquote then dquote # dquote # replace_quotes cs else c # replace_quotes cs)"

text \<open>
  What the function hands to the browser: the content and type of the \<^verbatim>\<open>Blob\<close> and
  the name of the download. \<open>None\<close> is the early return, with nothing downloaded.
\<close>

record Download =
  blob_content :: string
  blob_type :: string
  download_name :: string

definition downloadCSV :: "('v \<Rightarrow> string) \<Rightarrow> (string \<times> 'v) list list \<Rightarrow> string \<Rightarrow> Download option" where
  "downloadCSV String data filename =
     (case data of
        [] \<Rightarrow> None
      | first # _ \<Rightarrow>
          (let headers = join [comma] (Object_keys first);
               rows = map (\<lambda>obj. join [comma]
                        (map (\<lambda>v. [dquote] @ replace_quotes (String v) @ [dquote]) (Object_values obj))) data;
               csvContent = join [newline] (headers # rows)
           in Some \<lparr>blob_content = BOM @ csvContent,
                    blob_type = ''text/csv;charset=utf-8;'',
                    download_name = filename @ ''.csv''\<rparr>))"

subsection \<open>The format in the words of the specification\<close>

text \<open>
  A quoted value is the value between two quotes with each of its quotes written
  twice; a comma-joined row is its fields with a comma before each but the first;
  the document is the byte-order mark, the header row of the field names, and one
  row per record, each after a line feed.
\<close>

definition quoted :: "string \<Rightarrow> string" where
  "quoted s = dquote # concat (map (\<lambda>c. if c = dquote then [dquote, dquote] else [c]) s) @ [dquote]"

definition comma_joined :: "string list \<Rightarrow> string" where
  "comma_joined cells =
     (case cells of [] \<Rightarrow> [] | f # fs \<Rightarrow> f @ concat (map (\<lambda>g. comma # g) fs))"

definition csv_document :: "('v \<Rightarrow> string) \<Rightarrow> (string \<times> 'v) list list \<Rightarrow> string" where
  "csv_document String data =
     BOM @ comma_joined (map fst (hd data))
         @ concat (map (\<lambda>obj. newline # comma_joined (map (\<lambda>(k, v). quoted (String v)) obj)) data)"

subsection \<open>A reader of delimited text\<close>

text \<open>
  Modelled from the spec: the reader that the round-trip property names is no part of
  the repository. This one reads the common format: fields are separated by commas and
  records by line feeds; a field that starts with a quote runs to the next quote that
  is not doubled, and a doubled quote in it stands for one quote; a line feed at the
  very end closes the last record; a leading byte-order mark is skipped. The result
  under construction is a non-empty list of records whose first record has a first
  field, to which characters are added in front.
\<close>

datatype read_mode = FieldStart | Unquoted | Quoted | QuoteSeen

fun add_char :: "char \<Rightarrow> string list list \<Rightarrow> string list list" where
  "add_char c ((f # fs) # rs) = ((c # f) # fs) # rs"
| "add_char c ([] # rs) = [[c]] # rs"
| "add_char c [] = [[[c]]]"

fun new_field :: "string list list \<Rightarrow> string list list" where
  "new_field (r # rs) = ([] # r) # rs"
| "new_field [] = [[[], []]]"

definition new_record :: "string list list \<Rightarrow> string list list" where
  "new_record rs = [[]] # rs"

fun csv_fields :: "read_mode \<Rightarrow> string \<Rightarrow> string list list" where
  "csv_fields m [] = [[[]]]"
| "csv_fields m (c # cs) =
     (if m = Quoted then
        (if c = dquote then csv_fields QuoteSeen cs else add_char c (csv_fields Quoted cs))
      else if c = dquote \<and> m = FieldStart then csv_fields Quoted cs
      else if c = dquote \<and> m = QuoteSeen then add_char dquote (csv_fields Quoted cs)
      else if c = comma then new_field (csv_fields FieldStart cs)
      else if c = newline then (if cs = [] then [[[]]] else new_record (csv_fields FieldStart cs))
      else add_char c (csv_fields Unquoted cs))"

definition strip_BOM :: "string \<Rightarrow> string" where
  "strip_BOM s = (if take 3 s = BOM then drop 3 s else s)"

definition csv_read :: "string \<Rightarrow> string list list" where
  "csv_read s = (let t = strip_BOM s in if t = [] then [] else csv_fields FieldStart t)"

definition plain_field :: "string \<Rightarrow> bool" where
  "plain_field k = (dquote \<notin> set k \<and> comma \<notin> set k \<and> newline \<notin> set k)"
section \<open>Example data\<close>

text \<open>Concrete inputs on which the theorems below are instantiated.\<close>

definition example_video :: "string \<Rightarrow> real \<Rightarrow> real \<Rightarrow> real \<Rightarrow> string \<Rightarrow> string \<Rightarrow> YouTubeVideo" where
  "example_video i views likes comments dur published =
     \<lparr>video_id = i, title = ''t'', description = [], thumbnail = None, publishedAt = published,
      channelId = ''c'', channelTitle = ''C'', viewCount = Fin views, likeCount = Fin likes,
      commentCount = Fin comments, duration = dur, tags = [], popularityScore = None\<rparr>"

definition example_videos :: "YouTubeVideo list" where
  "example_videos =
     [example_video ''a'' 100 10 5 ''PT3M'' ''2024-01-01T00:00:00Z'',
      example_video ''b'' 50 5 1 ''PT2M59S'' ''2024-01-02T00:00:00Z'',
      example_video ''c'' 70 1 0 ''PT45S'' ''2024-03-16T12:00:00Z'',
      example_video ''d'' 100 0 0 ''PT30S'' ''2024-03-18T12:00:00Z'']"

text \<open>Three videos of which the second, a long one, carries a text that is no date.\<close>

definition example_undated :: "YouTubeVideo list" where
  "example_undated =
     [example_video ''a'' 1 0 0 ''PT1M'' ''2024-01-01T00:00:00Z'',
      example_video ''x'' 1 0 0 ''PT5M'' ''not a date'',
      example_video ''b'' 1 0 0 ''PT1M'' ''2024-01-02T00:00:00Z'']"

text \<open>
  A host on universal time whose clock reads 2024-06-15T12:00:00Z. The day of the
  month of a day number is that of the proleptic Gregorian calendar; setting the day
  of the month moves a date by whole days of 24 hours. \<open>example_parse\<close> gives the time
  values of the timestamps that the examples use; every other text of the examples is
  not a date.
\<close>

definition day_of_month :: "int \<Rightarrow> int" where
  "day_of_month days =
     (let z = days + 719468;
          era = z div 146097;
          doe = z - era * 146097;
          yoe = (doe - doe div 1460 + doe div 36524 - doe div 146096) div 365;
          doy = doe - (365 * yoe + yoe div 4 - yoe div 100);
          mp = (5 * doy + 2) div 153
      in doy - (153 * mp + 2) div 5 + 1)"

definition utc_getDate :: "int \<Rightarrow> int" where
  "utc_getDate t = day_of_month (t div day_ms)"

definition utc_setDate :: "int \<Rightarrow> int \<Rightarrow> int" where
  "utc_setDate t d = t + (d - utc_getDate t) * day_ms"

definition example_parse :: "string \<Rightarrow> int option" where
  "example_parse =
     map_of
       [(''1969-12-31T23:59:59Z'', - 1000),
        (''2024-01-01T00:00:00Z'', 1704067200000),
        (''2024-01-02T00:00:00Z'', 1704153600000),
        (''2024-03-16T12:00:00Z'', 1710590400000),
        (''2024-03-17T12:30:00Z'', 1710678600000),
        (''2024-03-18T12:00:00Z'', 1710763200000)]"

definition example_now :: int where
  "example_now = 1718452800000"

definition example_host :: Host where
  "example_host =
     \<lparr>Date_reading1 = example_now, Date_reading2 = example_now, Date_reading3 = example_now,
      getDate = utc_getDate, setDate = utc_setDate, Date_parse = example_parse\<rparr>"

text \<open>
  A host with the same clock on Central European Time, two hours ahead of universal
  time during the summer time of 2024 (from 2024-03-31T01:00:00Z to
  2024-10-27T01:00:00Z) and one hour ahead before and after. Setting the day of the
  month moves the local time by whole days and reads the result as a local time.
\<close>

definition cet_offset :: "int \<Rightarrow> int" where
  "cet_offset t = (if 1711846800000 \<le> t \<and> t < 1729990800000 then 7200000 else 3600000)"

definition cet_getDate :: "int \<Rightarrow> int" where
  "cet_getDate t = day_of_month ((t + cet_offset t) div day_ms)"

definition cet_setDate :: "int \<Rightarrow> int \<Rightarrow> int" where
  "cet_setDate t d =
     (let local = t + cet_offset t + (d - cet_getDate t) * day_ms
      in if cet_offset (local - 3600000) = 3600000 then local - 3600000 else local - 7200000)"

definition example_cet_host :: Host where
  "example_cet_host =
     \<lparr>Date_reading1 = example_now, Date_reading2 = example_now, Date_reading3 = example_now,
      getDate = cet_getDate, setDate = cet_setDate, Date_parse = example_parse\<rparr>"

definition example_searchItem :: "string \<Rightarrow> string \<Rightarrow> SearchItem" where
  "example_searchItem c v = \<lparr>search_channelId = c, search_videoId = v\<rparr>"

definition example_videoItem :: "string \<Rightarrow> string \<Rightarrow> nat \<Rightarrow> VideoItem" where
  "example_videoItem i c n =
     \<lparr>vi_id = i, vi_title = ''t'', vi_description = None, vi_thumbnail = None,
      vi_publishedAt = ''2024-03-18T12:00:00Z'', vi_channelId = c, vi_channelTitle = ''C'',
      vi_viewCount = Some n, vi_likeCount = None, vi_commentCount = None,
      vi_duration = ''PT1M'', vi_tags = None\<rparr>"

definition example_channelItem :: "string \<Rightarrow> nat option \<Rightarrow> string option \<Rightarrow> ChannelItem" where
  "example_channelItem i subs created =
     \<lparr>ci_id = i, ci_title = ''c'', ci_description = [], ci_thumbnail = None,
      ci_subscriberCount = subs, ci_videoCount = None, ci_viewCount = None, ci_country = None,
      ci_publishedAt = created\<rparr>"

text \<open>
  A service that answers the search with \<open>sItems\<close>, the channel request for the
  identifiers \<open>chIds\<close> with \<open>chItems\<close> and the video request for \<open>vIds\<close> with
  \<open>vItems\<close>, and any other request with a body without items.
\<close>

definition example_remote ::
  "SearchItem list option \<Rightarrow> string \<Rightarrow> ChannelItem list option \<Rightarrow> string \<Rightarrow> VideoItem list option
     \<Rightarrow> Remote" where
  "example_remote sItems chIds chItems vIds vItems =
     \<lparr>search_response = (\<lambda>request. sItems),
      channels_response = (\<lambda>ids. if ids = chIds then chItems else None),
      videos_response = (\<lambda>ids. if ids = vIds then vItems else None)\<rparr>"

definition example_search :: "SearchItem list" where
  "example_search =
     [example_searchItem ''c1'' ''v1'', example_searchItem ''c2'' ''v2'',
      example_searchItem ''c1'' ''v3'', example_searchItem ''c3'' ''v4'']"

definition example_channels :: "ChannelItem list" where
  "example_channels =
     [example_channelItem ''c2'' (Some 10000) (Some ''2024-03-18T12:00:00Z''),
      example_channelItem ''c3'' (Some 5) (Some ''2024-03-16T12:00:00Z''),
      example_channelItem ''c1'' (Some 0) (Some ''2024-03-18T12:00:00Z'')]"

definition example_details :: "VideoItem list" where
  "example_details =
     [example_videoItem ''v1'' ''c1'' 1000, example_videoItem ''v2'' ''c2'' 1000,
      example_videoItem ''v4'' ''c3'' 500]"

definition example_service :: Remote where
  "example_service =
     example_remote (Some example_search) ''c1,c2,c3'' (Some example_channels) ''v1,v2,v4''
       (Some example_details)"

definition example_records :: "(string \<times> string) list list" where
  "example_records =
     [[(''title'', [CHR ''a'', dquote, CHR ''b'', comma]), (''views'', ''10'')],
      [(''title'', [newline]), (''views'', [])]]"
section \<open>Properties of the rounding\<close>

lemma round_even_of_int [simp]: "round_even (of_int n) = n"
  by (simp add: round_even_def)

lemma round_even_le: "z \<le> of_int n \<Longrightarrow> round_even z \<le> n"
proof -
  assume z: "z \<le> of_int n"
  show ?thesis
  proof (cases "z = of_int n")
    case True
    then show ?thesis by simp
  next
    case False
    with z have "z < of_int n" by simp
    then have "\<lfloor>z\<rfloor> < n" by (simp add: floor_less_iff)
    then have "\<lfloor>z\<rfloor> + 1 \<le> n" by simp
    then show ?thesis by (auto simp: round_even_def Let_def)
  qed
qed

lemma round_even_ge: "of_int n \<le> z \<Longrightarrow> n \<le> round_even z"
proof -
  assume "of_int n \<le> z"
  then have "n \<le> \<lfloor>z\<rfloor>" by (simp add: le_floor_iff)
  then show ?thesis by (auto simp: round_even_def Let_def)
qed

lemma norm_exp_upper: "x < 2 ^ Suc j \<Longrightarrow> norm_exp n x \<le> int j"
proof (induction n arbitrary: x j)
  case 0
  then show ?case by simp
next
  case (Suc n)
  show ?case
  proof (cases "2 \<le> x")
    case True
    with Suc.prems have "j \<noteq> 0" by (cases j) auto
    then obtain i where j: "j = Suc i" by (cases j) auto
    from Suc.prems have "x / 2 < 2 ^ Suc i" by (simp add: j)
    from Suc.IH [OF this] True show ?thesis by (simp add: j)
  next
    case False
    show ?thesis
    proof (cases "x < 1")
      case True
      then have "x * 2 < 2 ^ Suc 0" by simp
      from Suc.IH [OF this] True False show ?thesis by simp
    next
      case False
      with \<open>\<not> 2 \<le> x\<close> show ?thesis by simp
    qed
  qed
qed

lemma norm_exp_ge_one: "1 \<le> x \<Longrightarrow> 2 powi (norm_exp n x) \<le> x \<and> 0 \<le> norm_exp n x"
proof (induction n arbitrary: x)
  case 0
  then show ?case by simp
next
  case (Suc n)
  show ?case
  proof (cases "2 \<le> x")
    case True
    then have "1 \<le> x / 2" by simp
    from Suc.IH [OF this] have ih: "2 powi (norm_exp n (x / 2)) \<le> x / 2" "0 \<le> norm_exp n (x / 2)"
      by simp_all
    have "(2::real) powi (norm_exp n (x / 2) + 1) = 2 powi (norm_exp n (x / 2)) * 2"
      by (simp add: power_int_add)
    with ih True show ?thesis by simp
  next
    case False
    with Suc.prems show ?thesis by simp
  qed
qed

lemma norm_exp_lower:
  "0 < x \<Longrightarrow> - int n < norm_exp n x \<Longrightarrow> 2 powi (norm_exp n x) \<le> x"
proof (induction n arbitrary: x)
  case 0
  then show ?case by simp
next
  case (Suc n)
  show ?case
  proof (cases "1 \<le> x")
    case True
    then show ?thesis using norm_exp_ge_one by blast
  next
    case False
    then have e: "norm_exp (Suc n) x = norm_exp n (x * 2) - 1" by simp
    note norm_exp.simps [simp del]
    have pw: "(2::real) powi (norm_exp n (x * 2) - 1) = 2 powi (norm_exp n (x * 2)) / 2"
      by (simp add: power_int_diff)
    show ?thesis
    proof (cases "1 \<le> x * 2")
      case True
      from norm_exp_ge_one [OF this, of n] show ?thesis unfolding e pw by simp
    next
      case False
      from Suc.prems have "0 < x * 2" "- int n < norm_exp n (x * 2)" by (simp_all add: e)
      from Suc.IH [OF this] show ?thesis unfolding e pw by simp
    qed
  qed
qed

lemma norm_exp_ge: "2 ^ j \<le> x \<Longrightarrow> j \<le> n \<Longrightarrow> int j \<le> norm_exp n x"
proof (induction n arbitrary: x j)
  case 0
  then show ?case by simp
next
  case (Suc n)
  show ?case
  proof (cases j)
    case 0
    with Suc.prems norm_exp_ge_one [of x "Suc n"] show ?thesis by simp
  next
    case (Suc i)
    with Suc.prems have x: "2 ^ i \<le> x / 2" and i: "i \<le> n" and two: "2 \<le> x"
      by (simp_all add: order_trans [OF _ Suc.prems(1)] self_le_power)
    from Suc.IH [OF x i] two show ?thesis by (simp add: Suc)
  qed
qed


lemma on_gridI: "y = of_int a * 2 powi u \<Longrightarrow> - 1074 \<le> u \<Longrightarrow> on_grid y"
proof -
  assume y: "y = of_int a * 2 powi u" and u: "- 1074 \<le> u"
  have "(2::real) powi u * 2 ^ 1074 = 2 powi (u + 1074)"
    by (simp add: power_int_add)
  also have "\<dots> = 2 ^ nat (u + 1074)"
    using u by (simp add: power_int_def)
  finally have "y * 2 ^ 1074 = of_int (a * 2 ^ nat (u + 1074))"
    by (simp add: y mult.assoc)
  then show ?thesis
    unfolding on_grid_def by (metis floor_of_int)
qed

lemma ulp_exp_ge: "- 1074 \<le> ulp_exp x"
  by (simp add: ulp_exp_def)

lemma ulp_exp_small: "x < 2 ^ 53 \<Longrightarrow> ulp_exp x \<le> 0"
  using norm_exp_upper [of x 52 1100] by (simp add: ulp_exp_def)

lemma fl_pos_bounds:
  assumes "0 < x" "of_int lo \<le> x" "x \<le> of_int hi" "hi < 2 ^ 53"
  shows "\<exists>y. fl_pos x = Fin y \<and> of_int lo \<le> y \<and> y \<le> of_int hi"
proof -
  have "x < 2 ^ 53"
  proof -
    have "(of_int hi :: real) < of_int (2 ^ 53)" using assms(4) by (simp only: of_int_less_iff)
    with assms(3) show ?thesis by simp
  qed
  then have "ulp_exp x \<le> 0" by (rule ulp_exp_small)
  then obtain k where k: "ulp_exp x = - int k"
    by (metis nonpos_int_cases)
  define p :: real where "p = 2 ^ k"
  have p: "0 < p" by (simp add: p_def)
  have s: "(2::real) powi (ulp_exp x) = 1 / p"
    by (simp add: k p_def power_int_minus_divide)
  define m where "m = round_even (x * p)"
  have "x * p \<le> of_int (hi * 2 ^ k)" using assms(3) p by (simp add: p_def)
  then have mh: "m \<le> hi * 2 ^ k" unfolding m_def by (rule round_even_le)
  have "of_int (lo * 2 ^ k) \<le> x * p" using assms(2) p by (simp add: p_def)
  then have ml: "lo * 2 ^ k \<le> m" unfolding m_def by (rule round_even_ge)
  have "(of_int m :: real) \<le> of_int (hi * 2 ^ k)" using mh by (simp only: of_int_le_iff)
  then have yh: "of_int m / p \<le> of_int hi" using p by (simp add: p_def field_simps)
  have "(of_int (lo * 2 ^ k) :: real) \<le> of_int m" using ml by (simp only: of_int_le_iff)
  then have yl: "of_int lo \<le> of_int m / p" using p by (simp add: p_def field_simps)
  have "(of_int hi :: real) < of_int (2 ^ 53)" using assms(4) by (simp only: of_int_less_iff)
  then have "of_int m / p < (2::real) ^ 53" using yh by simp
  also have "(2::real) ^ 53 \<le> 2 ^ 1024" by (rule power_increasing) simp_all
  finally have "\<not> (2::real) ^ 1024 \<le> of_int m / p" by simp
  then have "fl_pos x = Fin (of_int m / p)"
    by (simp add: fl_pos_def Let_def s m_def)
  with yl yh show ?thesis by blast
qed

lemma fl_pos_grid:
  assumes "0 < x"
  shows "fl_pos x = PosInf \<or> (\<exists>y. fl_pos x = Fin y \<and> 0 \<le> y \<and> on_grid y)"
proof -
  define s :: real where "s = 2 powi (ulp_exp x)"
  define m where "m = round_even (x / s)"
  have s: "0 < s" by (simp add: s_def)
  have "of_int 0 \<le> x / s" using assms s by simp
  then have m: "0 \<le> m" unfolding m_def by (rule round_even_ge)
  have g: "on_grid (of_int m * s)"
    by (rule on_gridI [of _ m "ulp_exp x"]) (simp_all add: s_def ulp_exp_ge)
  have "0 \<le> of_int m * s" using m s by simp
  with g show ?thesis
    by (auto simp: fl_pos_def Let_def s_def m_def)
qed

lemma fl_pos_positive:
  assumes "2 powi (- 1074) \<le> x"
  shows "fl_pos x = PosInf \<or> (\<exists>y. fl_pos x = Fin y \<and> 0 < y)"
proof -
  define s :: real where "s = 2 powi (ulp_exp x)"
  define m where "m = round_even (x / s)"
  have s: "0 < s" by (simp add: s_def)
  have x: "0 < x" using assms by (rule less_le_trans [rotated]) simp
  have "s \<le> x"
  proof (cases "norm_exp 1100 x \<le> - 1022")
    case True
    then have "ulp_exp x = - 1074" by (simp add: ulp_exp_def)
    with assms show ?thesis by (simp add: s_def)
  next
    case False
    then have u: "ulp_exp x = norm_exp 1100 x - 52" by (simp add: ulp_exp_def)
    from False have "- int 1100 < norm_exp 1100 x" by simp
    from norm_exp_lower [OF x this] have "2 powi (norm_exp 1100 x) \<le> x" .
    moreover have "(2::real) powi (norm_exp 1100 x - 52) \<le> 2 powi (norm_exp 1100 x)"
      by (rule power_int_increasing) simp_all
    ultimately show ?thesis by (simp add: s_def u)
  qed
  then have "of_int 1 \<le> x / s" using s by simp
  then have "1 \<le> m" unfolding m_def by (rule round_even_ge)
  then have "0 < of_int m * s" using s by simp
  then show ?thesis
    by (auto simp: fl_pos_def Let_def s_def m_def)
qed

lemma fl_pos_overflow:
  assumes "2 ^ 1024 \<le> x"
  shows "fl_pos x = PosInf"
proof -
  define e where "e = norm_exp 1100 x"
  have one: "1 \<le> x" using assms by (rule order_trans [rotated]) simp
  from norm_exp_ge_one [OF one, of 1100] have le: "2 powi e \<le> x" by (simp add: e_def)
  from norm_exp_ge [OF assms, of 1100] have e: "1024 \<le> e" by (simp add: e_def)
  then have u: "ulp_exp x = e - 52" by (simp add: ulp_exp_def e_def)
  define s :: real where "s = 2 powi (e - 52)"
  have s: "0 < s" by (simp add: s_def)
  have ps: "(2::real) powi e = 2 ^ 52 * s"
    by (simp add: s_def power_int_diff)
  have "of_int (2 ^ 52) \<le> x / s" using le s by (simp add: ps field_simps)
  then have "2 ^ 52 \<le> round_even (x / s)" by (rule round_even_ge)
  then have "(of_int (2 ^ 52) :: real) \<le> of_int (round_even (x / s))"
    by (simp only: of_int_le_iff)
  then have "2 ^ 52 * s \<le> of_int (round_even (x / s)) * s" using s by simp
  then have a: "2 powi e \<le> of_int (round_even (x / s)) * s" by (simp only: ps)
  have b: "(2::real) ^ 1024 \<le> 2 powi e"
  proof -
    have "(2::real) powi 1024 \<le> 2 powi e" using e by (intro power_int_increasing) simp_all
    then show ?thesis by simp
  qed
  have "(2::real) ^ 1024 \<le> of_int (round_even (x / s)) * s" by (rule order_trans [OF b a])
  then show ?thesis unfolding fl_pos_def Let_def u s_def by (simp only: if_True)
qed

lemma fl_pos_nat:
  assumes "0 < n"
  shows "fl_pos (of_nat n) = PosInf \<or> (\<exists>k::nat. fl_pos (of_nat n) = Fin (of_nat k))"
proof (cases "n < 2 ^ 53")
  case True
  then have "int n < 2 ^ 53" by (metis of_nat_less_iff of_nat_numeral of_nat_power)
  from fl_pos_bounds [of "of_nat n" "int n" "int n"] assms this
  have "fl_pos (of_nat n) = Fin (of_nat n)" by auto
  then show ?thesis by blast
next
  case False
  define x :: real where "x = of_nat n"
  from False have "2 ^ 53 \<le> n" by simp
  then have x53: "2 ^ 53 \<le> x" unfolding x_def by (metis of_nat_le_iff of_nat_numeral of_nat_power)
  from norm_exp_ge [OF this, of 1100] have "53 \<le> norm_exp 1100 x" by simp
  then have u: "1 \<le> ulp_exp x" by (simp add: ulp_exp_def)
  then obtain j where j: "ulp_exp x = int j" by (metis nonneg_int_cases order_trans zero_le_one)
  define m where "m = round_even (x / 2 ^ j)"
  have "of_int 0 \<le> x / 2 ^ j" by (simp add: x_def)
  then have "0 \<le> m" unfolding m_def by (rule round_even_ge)
  then obtain k where k: "m * 2 ^ j = int k" by (metis zero_le_mult_iff zero_le_numeral zero_le_power nonneg_int_cases)
  have "of_int m * (2::real) ^ j = of_int (m * 2 ^ j)" by simp
  also have "\<dots> = of_nat k" by (simp only: k of_int_of_nat_eq)
  finally have "of_int m * (2::real) ^ j = of_nat k" .
  then show ?thesis
    by (auto simp: fl_pos_def Let_def j m_def x_def [symmetric])
qed

lemma fl_bounds:
  assumes "of_int lo \<le> x" "x \<le> of_int hi" "0 \<le> lo" "hi < 2 ^ 53"
  shows "\<exists>y. fl x = Fin y \<and> of_int lo \<le> y \<and> y \<le> of_int hi"
proof (cases "x = 0")
  case True
  with assms show ?thesis by (simp add: fl_def)
next
  case False
  from assms(1,3) have "0 \<le> x" by (meson of_int_0_le_iff order_trans)
  with False have x: "0 < x" by simp
  from fl_pos_bounds [OF x assms(1,2,4)] x show ?thesis by (simp add: fl_def)
qed

lemma fl_of_int: "0 \<le> n \<Longrightarrow> n < 2 ^ 53 \<Longrightarrow> fl (of_int n) = Fin (of_int n)"
  using fl_bounds [of n "of_int n" n] by auto

lemma fl_of_nat: "n < 2 ^ 53 \<Longrightarrow> fl (real n) = Fin (real n)"
proof -
  assume "n < 2 ^ 53"
  then have "int n < 2 ^ 53" by (metis of_nat_less_iff of_nat_numeral of_nat_power)
  from fl_of_int [OF _ this] show ?thesis by simp
qed

lemma fl_nat: "fl (real n) = PosInf \<or> (\<exists>k::nat. fl (real n) = Fin (real k))"
proof (cases "n = 0")
  case True
  then have "fl (real n) = Fin (real 0)" by (simp add: fl_def)
  then show ?thesis by blast
next
  case False
  then have "0 < n" by simp
  from fl_pos_nat [OF this] False show ?thesis by (simp add: fl_def)
qed

lemma fl_nat_positive:
  assumes "0 < n"
  shows "fl (real n) = PosInf \<or> (\<exists>y. fl (real n) = Fin y \<and> 1 \<le> y)"
proof -
  have one: "of_int 1 \<le> real n" using assms by simp
  define s :: real where "s = 2 powi (ulp_exp (real n))"
  define m where "m = round_even (real n / s)"
  have s: "0 < s" by (simp add: s_def)
  show ?thesis
  proof (cases "n < 2 ^ 53")
    case True
    from fl_of_nat [OF this] assms show ?thesis by simp
  next
    case False
    then have "2 ^ 53 \<le> n" by simp
    then have x53: "2 ^ 53 \<le> real n" by (metis of_nat_le_iff of_nat_numeral of_nat_power)
    from norm_exp_ge [OF this, of 1100] have e53: "53 \<le> norm_exp 1100 (real n)" by simp
    then have u: "1 \<le> ulp_exp (real n)" by (simp add: ulp_exp_def)
    then have s1: "1 \<le> s" unfolding s_def by (simp add: one_le_power_int)
    have "s \<le> real n"
    proof -
      have "1 \<le> real n" using assms by simp
      from norm_exp_ge_one [OF this, of 1100] have "2 powi (norm_exp 1100 (real n)) \<le> real n" by simp
      moreover have "(2::real) powi (ulp_exp (real n)) \<le> 2 powi (norm_exp 1100 (real n))"
        using e53 by (intro power_int_increasing) (simp_all add: ulp_exp_def)
      ultimately show ?thesis by (simp add: s_def)
    qed
    then have "of_int 1 \<le> real n / s" using s by simp
    then have "1 \<le> m" unfolding m_def by (rule round_even_ge)
    then have "(1::real) \<le> of_int m" by simp
    with s1 have "1 * 1 \<le> of_int m * s" by (intro mult_mono) simp_all
    then have "1 \<le> of_int m * s" by simp
    with assms show ?thesis
      by (auto simp: fl_def fl_pos_def Let_def s_def m_def)
  qed
qed

lemma on_grid_diff:
  assumes "on_grid x" "on_grid y" "y < x"
  shows "2 powi (- 1074) \<le> x - y"
proof -
  define p :: real where "p = 2 ^ 1074"
  have p: "0 < p" by (simp add: p_def)
  from assms(1) obtain a where a: "x * p = of_int a" unfolding on_grid_def p_def by blast
  from assms(2) obtain b where b: "y * p = of_int b" unfolding on_grid_def p_def by blast
  from assms(3) p have "y * p < x * p" by simp
  then have "(of_int b :: real) < of_int a" by (simp only: a b)
  then have "b < a" by (simp only: of_int_less_iff)
  then have "b + 1 \<le> a" by simp
  then have "(of_int (b + 1) :: real) \<le> of_int a" by (simp only: of_int_le_iff)
  then have "y * p + 1 \<le> x * p" by (simp add: a b)
  then have "1 \<le> (x - y) * p" by (simp add: algebra_simps)
  then have "1 / p \<le> x - y" using p by (simp add: field_simps)
  moreover have "(2::real) powi (- 1074) = 1 / p"
    unfolding p_def by (simp only: power_int_minus_divide) simp
  ultimately show ?thesis by simp
qed

lemma on_grid_of_int: "on_grid (of_int n)"
  by (rule on_gridI [of _ n 0]) simp_all

lemma js_gt_fl:
  assumes "x \<le> 0 \<or> 2 powi (- 1074) \<le> x"
  shows "js_gt (fl x) (Fin 0) = (0 < x)"
proof (cases "0 < x")
  case True
  with assms have "2 powi (- 1074) \<le> x" by simp
  from fl_pos_positive [OF this] True show ?thesis by (auto simp: fl_def js_gt_def)
next
  case False
  show ?thesis
  proof (cases "x = 0")
    case True
    then show ?thesis by (simp add: fl_def js_gt_def)
  next
    case False
    with \<open>\<not> 0 < x\<close> have "0 < - x" by simp
    from fl_pos_grid [OF this] \<open>\<not> 0 < x\<close> False show ?thesis
      by (auto simp: fl_def js_gt_def js_neg_def)
  qed
qed

lemma js_gt_sub_grid:
  assumes "on_grid x" "on_grid y"
  shows "js_gt (js_sub (Fin x) (Fin y)) (Fin 0) = (y < x)"
proof -
  have "x - y \<le> 0 \<or> 2 powi (- 1074) \<le> x - y"
    using on_grid_diff [OF assms] by (cases "y < x") simp_all
  from js_gt_fl [OF this] show ?thesis by (simp add: js_sub_def js_neg_def)
qed

lemma js_gt_sub_int:
  "js_gt (js_sub (Fin (of_int b)) (Fin (of_int a))) (Fin 0) = (a < b)"
  using js_gt_sub_grid [OF on_grid_of_int on_grid_of_int, of b a] by simp

section \<open>Properties of the duration parser\<close>

lemma not_digit_HMS [simp]:
  "\<not> is_digit (CHR ''H'')" "\<not> is_digit (CHR ''M'')" "\<not> is_digit (CHR ''S'')"
  by (simp_all add: is_digit_def)

lemma takeWhile_digits:
  assumes "digits_ok ds" "\<not> is_digit X"
  shows "takeWhile is_digit (ds @ X # r) = ds" and "dropWhile is_digit (ds @ X # r) = X # r"
  using assms by (simp_all add: digits_ok_def list_all_iff)

lemma regex_group_hit:
  "digits_ok ds \<Longrightarrow> \<not> is_digit X \<Longrightarrow> regex_group X (ds @ X # r) = (Some (ds @ [X]), r)"
  by (simp add: regex_group_def takeWhile_digits) (simp add: digits_ok_def)

lemma regex_group_miss:
  "digits_ok ds \<Longrightarrow> \<not> is_digit Y \<Longrightarrow> Y \<noteq> X \<Longrightarrow> regex_group X (ds @ Y # r) = (None, ds @ Y # r)"
  by (simp add: regex_group_def takeWhile_digits)

lemma regex_group_Nil: "regex_group X [] = (None, [])"
  by (simp add: regex_group_def)

lemma parseInt_group:
  "digits_ok ds \<Longrightarrow> \<not> is_digit X \<Longrightarrow> parseInt (ds @ [X]) = fl (real (dec_val ds))"
  by (simp add: parseInt_def takeWhile_digits) (simp add: digits_ok_def)

lemma parseInt_zero: "parseInt ''0'' = Fin 0"
  by (simp add: parseInt_def is_digit_def digit_val_def dec_val_def fl_def)

lemma or_num_fl_nat: "or_num (fl (real n)) (Fin 0) = fl (real n)"
  using fl_nat [of n] by (auto simp: or_num_def truthy_def)

lemma or_num_zero: "or_num (Fin 0) (Fin 0) = Fin 0"
  by (simp add: or_num_def)

lemma or_str_group: "or_str (Some (ds @ [X])) d = ds @ [X]" "or_str None d = d"
  by (simp_all add: or_str_def)

lemma fl_zero: "fl 0 = Fin 0"
  by (simp add: fl_def)

lemma regex_groups_compose:
  assumes "group_ok h" "group_ok m" "group_ok s"
  shows "regex_groups (group_text (CHR ''H'') h @ group_text (CHR ''M'') m @ group_text (CHR ''S'') s)
         = (map_option (\<lambda>ds. ds @ ''H'') h, map_option (\<lambda>ds. ds @ ''M'') m, map_option (\<lambda>ds. ds @ ''S'') s)"
  using assms
  by (cases h; cases m; cases s)
     (simp_all add: regex_groups_def group_text_def group_ok_def regex_group_hit regex_group_miss regex_group_Nil)

lemma group_number:
  "group_ok g \<Longrightarrow> \<not> is_digit X \<Longrightarrow>
     or_num (parseInt (or_str (map_option (\<lambda>ds. ds @ [X]) g) ''0'')) (Fin 0) = fl (real (group_val g))"
  by (cases g)
     (simp_all add: group_ok_def group_val_def or_str_group parseInt_group parseInt_zero
        or_num_zero or_num_fl_nat fl_zero)

lemma parseDuration_compose:
  assumes "group_ok h" "group_ok m" "group_ok s"
  shows "parseDuration (''PT'' @ group_text (CHR ''H'') h @ group_text (CHR ''M'') m @ group_text (CHR ''S'') s)
         = js_add (js_add (js_mul (fl (real (group_val h))) (Fin 3600))
                          (js_mul (fl (real (group_val m))) (Fin 60)))
                  (fl (real (group_val s)))"
  using assms
  by (simp add: parseDuration_def regex_groups_compose group_number)

lemma parseDuration_exact:
  assumes "group_ok h" "group_ok m" "group_ok s"
    and "group_val h < 10 ^ 12" "group_val m < 10 ^ 12" "group_val s < 10 ^ 12"
  shows "parseDuration (''PT'' @ group_text (CHR ''H'') h @ group_text (CHR ''M'') m @ group_text (CHR ''S'') s)
         = Fin (real (group_val h * 3600 + group_val m * 60 + group_val s))"
proof -
  define a b c where "a = group_val h" and "b = group_val m" and "c = group_val s"
  have small: "a < 10 ^ 12" "b < 10 ^ 12" "c < 10 ^ 12"
    using assms(4-6) by (simp_all add: a_def b_def c_def)
  have fa: "fl (real a) = Fin (real a)" using small by (intro fl_of_nat) simp
  have fb: "fl (real b) = Fin (real b)" using small by (intro fl_of_nat) simp
  have fc: "fl (real c) = Fin (real c)" using small by (intro fl_of_nat) simp
  have ma: "fl (real a * 3600) = Fin (real (a * 3600))"
    using fl_of_nat [of "a * 3600"] small by simp
  have mb: "fl (real b * 60) = Fin (real (b * 60))"
    using fl_of_nat [of "b * 60"] small by simp
  have ab: "fl (real (a * 3600) + real (b * 60)) = Fin (real (a * 3600 + b * 60))"
    using fl_of_nat [of "a * 3600 + b * 60"] small by simp
  have abc: "fl (real (a * 3600 + b * 60) + real c) = Fin (real (a * 3600 + b * 60 + c))"
    using fl_of_nat [of "a * 3600 + b * 60 + c"] small by simp
  show ?thesis
    unfolding parseDuration_compose [OF assms(1-3)] a_def [symmetric] b_def [symmetric] c_def [symmetric]
    by (simp only: fa fb fc js_mul.simps js_add.simps ma mb ab abc)
qed

lemma duration_match_no_PT: "\<not> sublist ''PT'' d \<Longrightarrow> duration_match d = None"
proof (induction d)
  case Nil
  then show ?case by simp
next
  case (Cons c cs)
  from Cons.prems have no_pre: "\<not> prefix ''PT'' (c # cs)" and no_sub: "\<not> sublist ''PT'' cs"
    by (simp_all add: sublist_Cons_right)
  from no_pre have "\<not> (c = CHR ''P'' \<and> cs \<noteq> [] \<and> hd cs = CHR ''T'')"
    by (cases cs) auto
  with Cons.IH [OF no_sub] show ?case by simp
qed

lemma parseInt_whole:
  "or_num (parseInt s) (Fin 0) = PosInf \<or> (\<exists>n::nat. or_num (parseInt s) (Fin 0) = Fin (real n))"
proof (cases "takeWhile is_digit s = []")
  case True
  then have "or_num (parseInt s) (Fin 0) = Fin (real 0)"
    by (simp add: parseInt_def or_num_def truthy_def)
  then show ?thesis by blast
next
  case False
  then have "or_num (parseInt s) (Fin 0) = fl (real (dec_val (takeWhile is_digit s)))"
    by (simp add: parseInt_def or_num_fl_nat)
  with fl_nat show ?thesis by simp
qed

lemma js_mul_whole:
  assumes "a = PosInf \<or> (\<exists>n::nat. a = Fin (real n))" "0 < k"
  shows "js_mul a (Fin (real k)) = PosInf \<or> (\<exists>n::nat. js_mul a (Fin (real k)) = Fin (real n))"
proof (cases "a = PosInf")
  case True
  with assms(2) show ?thesis by simp
next
  case False
  with assms(1) obtain n :: nat where "a = Fin (real n)" by blast
  then have "js_mul a (Fin (real k)) = fl (real (n * k))" by simp
  with fl_nat [of "n * k"] show ?thesis by (simp only:)
qed

lemma js_add_whole:
  assumes "a = PosInf \<or> (\<exists>n::nat. a = Fin (real n))" "b = PosInf \<or> (\<exists>n::nat. b = Fin (real n))"
  shows "js_add a b = PosInf \<or> (\<exists>n::nat. js_add a b = Fin (real n))"
proof (cases "a = PosInf \<or> b = PosInf")
  case True
  with assms show ?thesis by auto
next
  case False
  with assms obtain n k :: nat where "a = Fin (real n)" "b = Fin (real k)" by blast
  then have "js_add a b = fl (real (n + k))" by simp
  with fl_nat [of "n + k"] show ?thesis by (simp only:)
qed

lemma parseDuration_whole:
  "parseDuration d = PosInf \<or> (\<exists>n::nat. parseDuration d = Fin (real n))"
proof (cases "duration_match d")
  case None
  then have "parseDuration d = Fin (real 0)" by (simp add: parseDuration_def)
  then show ?thesis by blast
next
  case (Some g)
  obtain m1 m2 m3 where g: "g = (m1, m2, m3)" by (cases g) auto
  define hours where "hours = or_num (parseInt (or_str m1 ''0'')) (Fin 0)"
  define minutes where "minutes = or_num (parseInt (or_str m2 ''0'')) (Fin 0)"
  define seconds where "seconds = or_num (parseInt (or_str m3 ''0'')) (Fin 0)"
  have pd: "parseDuration d
      = js_add (js_add (js_mul hours (Fin (real 3600))) (js_mul minutes (Fin (real 60)))) seconds"
    by (simp add: parseDuration_def Some g hours_def minutes_def seconds_def)
  have h: "js_mul hours (Fin (real 3600)) = PosInf \<or> (\<exists>n::nat. js_mul hours (Fin (real 3600)) = Fin (real n))"
    unfolding hours_def by (rule js_mul_whole [OF parseInt_whole]) simp
  have m: "js_mul minutes (Fin (real 60)) = PosInf \<or> (\<exists>n::nat. js_mul minutes (Fin (real 60)) = Fin (real n))"
    unfolding minutes_def by (rule js_mul_whole [OF parseInt_whole]) simp
  have s: "seconds = PosInf \<or> (\<exists>n::nat. seconds = Fin (real n))"
    unfolding seconds_def by (rule parseInt_whole)
  show ?thesis
    unfolding pd by (rule js_add_whole [OF js_add_whole [OF h m] s])
qed

lemma dec_val_snoc: "dec_val (ds @ [c]) = 10 * dec_val ds + digit_val c"
  by (simp add: dec_val_def)

lemma dec_val_nines: "dec_val (replicate n (CHR ''9'')) + 1 = 10 ^ n"
proof (induction n)
  case 0
  then show ?case by (simp add: dec_val_def)
next
  case (Suc n)
  have "replicate (Suc n) (CHR ''9'') = replicate n (CHR ''9'') @ [CHR ''9'']"
    by (simp add: replicate_append_same)
  then have "dec_val (replicate (Suc n) (CHR ''9'')) = 10 * dec_val (replicate n (CHR ''9'')) + 9"
    by (simp only: dec_val_snoc) (simp add: digit_val_def)
  with Suc.IH show ?case by simp
qed

lemma digits_ok_nines: "0 < n \<Longrightarrow> digits_ok (replicate n (CHR ''9''))"
  by (simp add: digits_ok_def list_all_iff is_digit_def)

lemma parseDuration_seconds_overflow:
  assumes "digits_ok ds" "2 ^ 1024 \<le> real (dec_val ds)"
  shows "parseDuration (''PT'' @ ds @ ''S'') = PosInf"
proof -
  have ok: "group_ok None" "group_ok (Some ds)"
    using assms(1) by (simp_all add: group_ok_def)
  have pos: "0 < real (dec_val ds)" using assms(2) by (rule less_le_trans [rotated]) simp
  from fl_pos_overflow [OF assms(2)] pos have inf: "fl (real (dec_val ds)) = PosInf"
    by (simp add: fl_def)
  from parseDuration_compose [OF ok(1) ok(1) ok(2)]
  show ?thesis
    by (simp add: group_text_def group_val_def inf fl_zero)
qed

lemma dec_val_nines_big: "2 ^ 1024 \<le> real (dec_val (replicate 400 (CHR ''9'')))"
proof -
  define k where "k = dec_val (replicate 400 (CHR ''9''))"
  have "k + 1 = 10 ^ 400" unfolding k_def by (rule dec_val_nines)
  then have "real (k + 1) = real (10 ^ 400)" by (simp only:)
  then have "real k + 1 = 10 ^ 400" by simp
  moreover have "(2::real) ^ 1024 + 1 \<le> 10 ^ 400" by simp
  ultimately have "2 ^ 1024 \<le> real k" by linarith
  then show ?thesis by (simp only: k_def)
qed

lemma parseDuration_nines:
  "parseDuration (''PT'' @ replicate 400 (CHR ''9'') @ ''S'') = PosInf"
  by (rule parseDuration_seconds_overflow [OF digits_ok_nines dec_val_nines_big]) simp

text \<open>
  Claim C3, refuted as stated: a seconds group of 400 digits is read as
  \<^verbatim>\<open>Infinity\<close>, which is not an integer.
\<close>

theorem parseDuration_counterexample:
  "parseDuration (''PT'' @ replicate 400 (CHR ''9'') @ ''S'') = PosInf"
  by (rule parseDuration_nines)

text \<open>
  Claim C3, amended. The parser reads \<^verbatim>\<open>PT1H2M3S\<close> as 3723, \<^verbatim>\<open>PT45S\<close> as 45 and
  \<^verbatim>\<open>PT10M\<close> as 600 seconds. Whichever of the hour, minute and second groups are
  present after \<^verbatim>\<open>PT\<close>, the result is the sum of their values in the arithmetic of
  numbers, a missing group counting as zero; it is the exact sum when every group
  writes a value below \<open>10 ^ 12\<close>. A text in which \<^verbatim>\<open>PT\<close> does not occur gives 0.
  For every text the result is a non-negative integer or \<^verbatim>\<open>Infinity\<close>, never \<^verbatim>\<open>NaN\<close>
  and never an error.
\<close>

theorem parseDuration_spec:
  "parseDuration ''PT1H2M3S'' = Fin 3723 \<and> parseDuration ''PT45S'' = Fin 45
   \<and> parseDuration ''PT10M'' = Fin 600
   \<and> (\<forall>h m s. group_ok h \<and> group_ok m \<and> group_ok s \<longrightarrow>
        parseDuration (''PT'' @ group_text (CHR ''H'') h @ group_text (CHR ''M'') m @ group_text (CHR ''S'') s)
          = js_add (js_add (js_mul (fl (real (group_val h))) (Fin 3600))
                           (js_mul (fl (real (group_val m))) (Fin 60)))
                   (fl (real (group_val s))))
   \<and> (\<forall>h m s. group_ok h \<and> group_ok m \<and> group_ok s
          \<and> group_val h < 10 ^ 12 \<and> group_val m < 10 ^ 12 \<and> group_val s < 10 ^ 12 \<longrightarrow>
        parseDuration (''PT'' @ group_text (CHR ''H'') h @ group_text (CHR ''M'') m @ group_text (CHR ''S'') s)
          = Fin (real (group_val h * 3600 + group_val m * 60 + group_val s)))
   \<and> (\<forall>d. \<not> sublist ''PT'' d \<longrightarrow> parseDuration d = Fin 0)
   \<and> (\<forall>d. parseDuration d = PosInf \<or> (\<exists>n::nat. parseDuration d = Fin (real n)))"
proof -
  have g: "group_ok (Some ''1'')" "group_ok (Some ''2'')" "group_ok (Some ''3'')"
    "group_ok (Some ''45'')" "group_ok (Some ''10'')" "group_ok None"
    by (simp_all add: group_ok_def digits_ok_def is_digit_def)
  have e1: "parseDuration ''PT1H2M3S'' = Fin 3723"
    using parseDuration_exact [OF g(1) g(2) g(3)]
    by (simp add: group_text_def group_val_def dec_val_def digit_val_def)
  have e2: "parseDuration ''PT45S'' = Fin 45"
    using parseDuration_exact [OF g(6) g(6) g(4)]
    by (simp add: group_text_def group_val_def dec_val_def digit_val_def)
  have e3: "parseDuration ''PT10M'' = Fin 600"
    using parseDuration_exact [OF g(6) g(5) g(6)]
    by (simp add: group_text_def group_val_def dec_val_def digit_val_def)
  have none: "parseDuration d = Fin 0" if "\<not> sublist ''PT'' d" for d
    using that by (simp add: parseDuration_def duration_match_no_PT)
  show ?thesis
    using e1 e2 e3 none parseDuration_compose parseDuration_exact parseDuration_whole by blast
qed

theorem parseDuration_spec_witness:
  "group_ok (Some ''1'') \<and> group_ok None \<and> group_ok (Some ''30'')
   \<and> group_val (Some ''1'') < 10 ^ 12 \<and> group_val None < 10 ^ 12 \<and> group_val (Some ''30'') < 10 ^ 12
   \<and> parseDuration ''PT1H30S'' = Fin 3630
   \<and> \<not> sublist ''PT'' ''P1DT2H'' \<and> parseDuration ''P1DT2H'' = Fin 0"
proof -
  have g: "group_ok (Some ''1'') \<and> group_ok None \<and> group_ok (Some ''30'')"
    by (simp add: group_ok_def digits_ok_def is_digit_def)
  have v: "group_val (Some ''1'') < 10 ^ 12 \<and> group_val None < 10 ^ 12 \<and> group_val (Some ''30'') < 10 ^ 12"
    by (simp add: group_val_def dec_val_def digit_val_def)
  have n: "\<not> sublist ''PT'' ''P1DT2H''"
    by (simp add: sublist_Cons_right)
  from parseDuration_spec g v
  have "parseDuration (''PT'' @ group_text (CHR ''H'') (Some ''1'') @ group_text (CHR ''M'') None
                         @ group_text (CHR ''S'') (Some ''30''))
          = Fin (real (group_val (Some ''1'') * 3600 + group_val None * 60 + group_val (Some ''30'')))"
    by blast
  then have a: "parseDuration ''PT1H30S'' = Fin 3630"
    by (simp add: group_text_def group_val_def dec_val_def digit_val_def)
  from parseDuration_spec n have b: "parseDuration ''P1DT2H'' = Fin 0"
    by blast
  from g v a n b show ?thesis by blast
qed

section \<open>Properties of the popularity scorer\<close>

lemma fl_one: "fl 1 = Fin 1"
  using fl_of_int [of 1] by simp

lemma fl_numeral: "(numeral k :: int) < 2 ^ 53 \<Longrightarrow> fl (numeral k) = Fin (numeral k)"
  using fl_of_int [of "numeral k"] by simp

lemma count_ok_Fin: "count_ok a \<Longrightarrow> \<exists>x. a = Fin x \<and> 0 \<le> x"
  by (cases a) (simp_all add: count_ok_def)

lemma fold_max2:
  assumes "\<forall>x\<in>set xs. \<exists>y. x = Fin y"
  shows "\<exists>m. fold (\<lambda>x acc. max2 acc x) xs (Fin a) = Fin m \<and> a \<le> m
           \<and> (\<forall>y. Fin y \<in> set xs \<longrightarrow> y \<le> m) \<and> (m = a \<or> Fin m \<in> set xs)"
  using assms
proof (induction xs arbitrary: a)
  case Nil
  then show ?case by simp
next
  case (Cons x xs)
  from Cons.prems obtain y where x: "x = Fin y" by auto
  from Cons.prems have rest: "\<forall>x\<in>set xs. \<exists>y. x = Fin y" by simp
  have step: "max2 (Fin a) x = Fin (max a y)"
    by (simp add: x max2_def max_def)
  from Cons.IH [OF rest, of "max a y"] obtain m
    where m: "fold (\<lambda>x acc. max2 acc x) xs (Fin (max a y)) = Fin m" "max a y \<le> m"
      "\<forall>y. Fin y \<in> set xs \<longrightarrow> y \<le> m" "m = max a y \<or> Fin m \<in> set xs"
    by blast
  have "fold (\<lambda>x acc. max2 acc x) (x # xs) (Fin a) = Fin m"
    by (simp add: step m(1))
  moreover have "a \<le> m" using m(2) by simp
  moreover have "\<forall>z. Fin z \<in> set (x # xs) \<longrightarrow> z \<le> m" using m(2,3) by (auto simp: x)
  moreover have "m = a \<or> Fin m \<in> set (x # xs)"
    using m(4) by (auto simp: x max_def split: if_splits)
  ultimately show ?case by blast
qed

lemma Math_max_Fin:
  assumes "xs \<noteq> []" "\<forall>x\<in>set xs. \<exists>y. x = Fin y"
  shows "\<exists>m. Math_max xs = Fin m \<and> Fin m \<in> set xs \<and> (\<forall>y. Fin y \<in> set xs \<longrightarrow> y \<le> m)"
proof -
  from assms obtain y ys where xs: "xs = Fin y # ys" by (cases xs) auto
  from assms(2) have rest: "\<forall>x\<in>set ys. \<exists>y. x = Fin y" by (simp add: xs)
  have first: "max2 NegInf (Fin y) = Fin y" by (simp add: max2_def)
  from fold_max2 [OF rest, of y] obtain m
    where m: "fold (\<lambda>x acc. max2 acc x) ys (Fin y) = Fin m" "y \<le> m"
      "\<forall>z. Fin z \<in> set ys \<longrightarrow> z \<le> m" "m = y \<or> Fin m \<in> set ys"
    by blast
  have "Math_max xs = Fin m" by (simp add: Math_max_def xs first m(1))
  moreover have "Fin m \<in> set xs" using m(4) by (auto simp: xs)
  moreover have "\<forall>z. Fin z \<in> set xs \<longrightarrow> z \<le> m" using m(2,3) by (auto simp: xs)
  ultimately show ?thesis by blast
qed

lemma Math_max_counts:
  assumes "videos \<noteq> []" "\<forall>v\<in>set videos. count_ok (f v)"
  shows "\<exists>m. Math_max (map f videos) = Fin m \<and> 0 \<le> m
           \<and> (\<forall>v\<in>set videos. \<exists>x. f v = Fin x \<and> 0 \<le> x \<and> x \<le> m)"
proof -
  have fin: "\<forall>x\<in>set (map f videos). \<exists>y. x = Fin y"
    using assms(2) by (auto dest: count_ok_Fin)
  from assms(1) have ne: "map f videos \<noteq> []" by simp
  from Math_max_Fin [OF ne fin] obtain m
    where m: "Math_max (map f videos) = Fin m" "Fin m \<in> set (map f videos)"
      "\<forall>y. Fin y \<in> set (map f videos) \<longrightarrow> y \<le> m"
    by blast
  from m(2) obtain v where "v \<in> set videos" "f v = Fin m" by auto
  with assms(2) count_ok_Fin [of "f v"] have m0: "0 \<le> m" by auto
  have "\<exists>x. f v = Fin x \<and> 0 \<le> x \<and> x \<le> m" if "v \<in> set videos" for v
  proof -
    from that assms(2) count_ok_Fin [of "f v"] obtain x where x: "f v = Fin x" "0 \<le> x" by auto
    from that x(1) have "Fin x \<in> set (map f videos)" by force
    with m(3) have "x \<le> m" by blast
    with x show ?thesis by blast
  qed
  with m(1) m0 show ?thesis by blast
qed

text \<open>One component of the score: a share of the weight \<open>w\<close>.\<close>

lemma component_bounds:
  assumes "0 \<le> x" "x \<le> m" "0 \<le> W" "W < 2 ^ 53" "w = of_int W"
  shows "\<exists>y. (if truthy (Fin m) then js_mul (js_div (Fin x) (Fin m)) (Fin w) else Fin 0) = Fin y
           \<and> 0 \<le> y \<and> y \<le> (if m = 0 then 0 else w)"
proof (cases "m = 0")
  case True
  then show ?thesis by (simp add: truthy_def)
next
  case False
  with assms have m: "0 < m" by simp
  have "of_int 0 \<le> x / m" "x / m \<le> of_int 1" using assms m by simp_all
  from fl_bounds [OF this] obtain r where r: "fl (x / m) = Fin r" "0 \<le> r" "r \<le> 1" by auto
  have "of_int 0 \<le> r * w"  using r assms by simp
  moreover have "r * w \<le> of_int W"
    using r assms by (simp add: mult_left_le_one_le)
  ultimately obtain y where y: "fl (r * w) = Fin y" "0 \<le> y" "y \<le> w"
    using fl_bounds [of 0 "r * w" W] assms by auto
  from False m r(1) y show ?thesis by (simp add: truthy_def)
qed

lemma js_add_bounds:
  assumes "0 \<le> a" "a \<le> of_int A" "0 \<le> b" "b \<le> of_int B" "A + B < 2 ^ 53"
  shows "\<exists>s. js_add (Fin a) (Fin b) = Fin s \<and> 0 \<le> s \<and> s \<le> of_int (A + B)"
proof -
  have "of_int 0 \<le> a + b" "a + b \<le> of_int (A + B)" using assms by simp_all
  from fl_bounds [OF this] assms(5) show ?thesis by auto
qed

lemma Math_round_bounds:
  assumes "0 \<le> s" "s \<le> of_int H"
  shows "\<exists>n. Math_round (Fin s) = Fin (of_int n) \<and> 0 \<le> n \<and> n \<le> H"
proof -
  have "0 \<le> \<lfloor>s + 1 / 2\<rfloor>" using assms(1) by simp
  moreover have "s + 1 / 2 < of_int (H + 1)" using assms(2) by simp
  then have "\<lfloor>s + 1 / 2\<rfloor> < H + 1" by (simp only: floor_less_iff)
  ultimately show ?thesis by (simp add: Math_round_def)
qed

lemma calculateVideoScore_bounds:
  assumes "viewCount v = Fin x1" "0 \<le> x1" "x1 \<le> m1"
    and "likeCount v = Fin x2" "0 \<le> x2" "x2 \<le> m2"
    and "commentCount v = Fin x3" "0 \<le> x3" "x3 \<le> m3"
  shows "\<exists>n. calculateVideoScore v (Fin m1) (Fin m2) (Fin m3) = Fin (of_int n) \<and> 0 \<le> n
           \<and> n \<le> (if m1 = 0 then 0 else 50) + (if m2 = 0 then 0 else 30) + (if m3 = 0 then 0 else 20)"
proof -
  define A :: int where "A = (if m1 = 0 then 0 else 50)"
  define B :: int where "B = (if m2 = 0 then 0 else 30)"
  define C :: int where "C = (if m3 = 0 then 0 else 20)"
  have small: "0 \<le> A" "A \<le> 50" "0 \<le> B" "B \<le> 30" "0 \<le> C" "C \<le> 20"
    by (simp_all add: A_def B_def C_def)
  from component_bounds [OF assms(2,3), of 50 50] obtain a
    where a: "(if truthy (Fin m1) then js_mul (js_div (Fin x1) (Fin m1)) (Fin 50) else Fin 0) = Fin a"
      "0 \<le> a" "a \<le> of_int A"
    by (auto simp: A_def split: if_splits)
  from component_bounds [OF assms(5,6), of 30 30] obtain b
    where b: "(if truthy (Fin m2) then js_mul (js_div (Fin x2) (Fin m2)) (Fin 30) else Fin 0) = Fin b"
      "0 \<le> b" "b \<le> of_int B"
    by (auto simp: B_def split: if_splits)
  from component_bounds [OF assms(8,9), of 20 20] obtain c
    where c: "(if truthy (Fin m3) then js_mul (js_div (Fin x3) (Fin m3)) (Fin 20) else Fin 0) = Fin c"
      "0 \<le> c" "c \<le> of_int C"
    by (auto simp: C_def split: if_splits)
  have "A + B < 2 ^ 53" using small by simp
  from js_add_bounds [OF a(2,3) b(2,3) this] obtain s
    where s: "js_add (Fin a) (Fin b) = Fin s" "0 \<le> s" "s \<le> of_int (A + B)" by blast
  have "A + B + C < 2 ^ 53" using small by simp
  from js_add_bounds [OF s(2,3) c(2,3) this] obtain t
    where t: "js_add (Fin s) (Fin c) = Fin t" "0 \<le> t" "t \<le> of_int (A + B + C)" by blast
  from Math_round_bounds [OF t(2,3)] obtain n
    where n: "Math_round (Fin t) = Fin (of_int n)" "0 \<le> n" "n \<le> A + B + C" by blast
  have "calculateVideoScore v (Fin m1) (Fin m2) (Fin m3) = Fin (of_int n)"
    unfolding calculateVideoScore_def Let_def assms(1,4,7) a(1) b(1) c(1) s(1) t(1) n(1) ..
  with n(2,3) show ?thesis unfolding A_def B_def C_def by blast
qed

lemma calculateVideoScore_at_max:
  assumes "0 < m1" "0 < m2" "0 < m3"
    and "viewCount v = Fin m1" "likeCount v = Fin m2" "commentCount v = Fin m3"
  shows "calculateVideoScore v (Fin m1) (Fin m2) (Fin m3) = Fin 100"
proof -
  have a: "(if truthy (Fin m1) then js_mul (js_div (Fin m1) (Fin m1)) (Fin 50) else Fin 0) = Fin 50"
    using assms(1) by (simp add: truthy_def fl_one fl_numeral)
  have b: "(if truthy (Fin m2) then js_mul (js_div (Fin m2) (Fin m2)) (Fin 30) else Fin 0) = Fin 30"
    using assms(2) by (simp add: truthy_def fl_one fl_numeral)
  have c: "(if truthy (Fin m3) then js_mul (js_div (Fin m3) (Fin m3)) (Fin 20) else Fin 0) = Fin 20"
    using assms(3) by (simp add: truthy_def fl_one fl_numeral)
  have s: "js_add (Fin 50) (Fin 30) = Fin 80" by (simp add: fl_numeral)
  have t: "js_add (Fin 80) (Fin 20) = Fin 100" by (simp add: fl_numeral)
  have r: "Math_round (Fin 100) = Fin 100" by (simp add: Math_round_def)
  show ?thesis
    unfolding calculateVideoScore_def Let_def assms(4-6) a b c s t r ..
qed

lemma length_processedVideos: "length (processedVideos videos) = length videos"
  by (simp add: processedVideos_def Let_def)

lemma processedVideos_nth:
  assumes "i < length videos"
  shows "processedVideos videos ! i =
           (videos ! i)\<lparr>popularityScore :=
              Some (calculateVideoScore (videos ! i) (Math_max (map viewCount videos))
                (Math_max (map likeCount videos)) (Math_max (map commentCount videos)))\<rparr>"
  using assms by (auto simp: processedVideos_def Let_def)

lemma processedVideos_score:
  assumes "\<forall>v\<in>set videos. counts_ok v" "i < length videos"
  shows "\<exists>n m1 m2 m3.
           Math_max (map viewCount videos) = Fin m1 \<and> Math_max (map likeCount videos) = Fin m2
           \<and> Math_max (map commentCount videos) = Fin m3
           \<and> popularityScore (processedVideos videos ! i) = Some (Fin (of_int n)) \<and> 0 \<le> n
           \<and> n \<le> (if m1 = 0 then 0 else 50) + (if m2 = 0 then 0 else 30) + (if m3 = 0 then 0 else 20)"
proof -
  from assms(2) have ne: "videos \<noteq> []" by auto
  have v: "videos ! i \<in> set videos" using assms(2) by simp
  have ok: "\<forall>v\<in>set videos. count_ok (viewCount v)" "\<forall>v\<in>set videos. count_ok (likeCount v)"
    "\<forall>v\<in>set videos. count_ok (commentCount v)"
    using assms(1) by (simp_all add: counts_ok_def)
  from Math_max_counts [OF ne ok(1)] v obtain m1 x1
    where m1: "Math_max (map viewCount videos) = Fin m1"
      and x1: "viewCount (videos ! i) = Fin x1" "0 \<le> x1" "x1 \<le> m1" by blast
  from Math_max_counts [OF ne ok(2)] v obtain m2 x2
    where m2: "Math_max (map likeCount videos) = Fin m2"
      and x2: "likeCount (videos ! i) = Fin x2" "0 \<le> x2" "x2 \<le> m2" by blast
  from Math_max_counts [OF ne ok(3)] v obtain m3 x3
    where m3: "Math_max (map commentCount videos) = Fin m3"
      and x3: "commentCount (videos ! i) = Fin x3" "0 \<le> x3" "x3 \<le> m3" by blast
  from calculateVideoScore_bounds [OF x1 x2 x3] obtain n
    where n: "calculateVideoScore (videos ! i) (Fin m1) (Fin m2) (Fin m3) = Fin (of_int n)" "0 \<le> n"
      "n \<le> (if m1 = 0 then 0 else 50) + (if m2 = 0 then 0 else 30) + (if m3 = 0 then 0 else 20)"
    by blast
  have "popularityScore (processedVideos videos ! i) = Some (Fin (of_int n))"
    by (simp add: processedVideos_nth [OF assms(2)] m1 m2 m3 n(1))
  with m1 m2 m3 n(2,3) show ?thesis by blast
qed

lemma processedVideos_score_set:
  assumes "\<forall>v\<in>set videos. counts_ok v" "s \<in> set (processedVideos videos)"
  shows "\<exists>n m1 m2 m3.
           Math_max (map viewCount videos) = Fin m1 \<and> Math_max (map likeCount videos) = Fin m2
           \<and> Math_max (map commentCount videos) = Fin m3
           \<and> popularityScore s = Some (Fin (of_int n)) \<and> 0 \<le> n
           \<and> n \<le> (if m1 = 0 then 0 else 50) + (if m2 = 0 then 0 else 30) + (if m3 = 0 then 0 else 20)"
proof -
  from assms(2) obtain i where i: "i < length videos" and s: "s = processedVideos videos ! i"
    by (auto simp: in_set_conv_nth length_processedVideos)
  from processedVideos_score [OF assms(1) i] show ?thesis unfolding s .
qed


text \<open>The scores of the examples.\<close>

lemma example_scores:
  "map popularityScore (processedVideos [example_video ''a'' 10 0 0 ''PT1M'' ''2024-01-01T00:00:00Z''])
     = [Some (Fin 50)]"
  by (simp add: processedVideos_def example_video_def calculateVideoScore_def Math_max_def max2_def
      truthy_def fl_one fl_numeral Math_round_def Let_def)

text \<open>
  Claim C1, as the code has it, for video records whose counts are non-negative
  integers (the data model of the specification). For a non-empty collection every
  score is an integer between 0 and 100, and an item whose view, like and comment
  counts are the three maxima of the collection scores exactly 100 when the three
  maxima are positive. (A maximum of 0 contributes nothing, by the guard of its
  division.)
\<close>

theorem popularity_score_range_and_top:
  "videos \<noteq> [] \<Longrightarrow> \<forall>v \<in> set videos. counts_ok v \<Longrightarrow>
     (\<forall>s \<in> set (processedVideos videos).
        \<exists>n. popularityScore s = Some (Fin (of_int n)) \<and> 0 \<le> n \<and> n \<le> 100)
     \<and> (\<forall>i < length videos.
           viewCount (videos ! i) = Math_max (map viewCount videos)
           \<and> likeCount (videos ! i) = Math_max (map likeCount videos)
           \<and> commentCount (videos ! i) = Math_max (map commentCount videos)
           \<and> js_gt (Math_max (map viewCount videos)) (Fin 0)
           \<and> js_gt (Math_max (map likeCount videos)) (Fin 0)
           \<and> js_gt (Math_max (map commentCount videos)) (Fin 0)
           \<longrightarrow> popularityScore (processedVideos videos ! i) = Some (Fin 100))"
proof (intro conjI ballI allI impI)
  fix s
  assume ok: "\<forall>v \<in> set videos. counts_ok v" and "s \<in> set (processedVideos videos)"
  from processedVideos_score_set [OF this] obtain n m1 m2 m3
    where "Math_max (map viewCount videos) = Fin m1" "Math_max (map likeCount videos) = Fin m2"
      "Math_max (map commentCount videos) = Fin m3"
      and n: "popularityScore s = Some (Fin (of_int n))" "0 \<le> n"
      "n \<le> (if m1 = 0 then 0 else 50) + (if m2 = 0 then 0 else 30) + (if m3 = 0 then 0 else (20::int))"
    by blast
  from n(3) have "n \<le> 100" by (simp split: if_splits)
  with n(1,2) show "\<exists>n. popularityScore s = Some (Fin (of_int n)) \<and> 0 \<le> n \<and> n \<le> 100" by blast
next
  fix i
  assume ne: "videos \<noteq> []" and ok: "\<forall>v \<in> set videos. counts_ok v" and i: "i < length videos"
    and m: "viewCount (videos ! i) = Math_max (map viewCount videos)
           \<and> likeCount (videos ! i) = Math_max (map likeCount videos)
           \<and> commentCount (videos ! i) = Math_max (map commentCount videos)
           \<and> js_gt (Math_max (map viewCount videos)) (Fin 0)
           \<and> js_gt (Math_max (map likeCount videos)) (Fin 0)
           \<and> js_gt (Math_max (map commentCount videos)) (Fin 0)"
  have cs: "\<forall>v\<in>set videos. count_ok (viewCount v)" "\<forall>v\<in>set videos. count_ok (likeCount v)"
    "\<forall>v\<in>set videos. count_ok (commentCount v)"
    using ok by (simp_all add: counts_ok_def)
  from Math_max_counts [OF ne cs(1)] obtain m1 where m1: "Math_max (map viewCount videos) = Fin m1"
    by blast
  from Math_max_counts [OF ne cs(2)] obtain m2 where m2: "Math_max (map likeCount videos) = Fin m2"
    by blast
  from Math_max_counts [OF ne cs(3)] obtain m3 where m3: "Math_max (map commentCount videos) = Fin m3"
    by blast
  from m have pos: "0 < m1" "0 < m2" "0 < m3" by (simp_all add: m1 m2 m3 js_gt_def)
  from m have at: "viewCount (videos ! i) = Fin m1" "likeCount (videos ! i) = Fin m2"
    "commentCount (videos ! i) = Fin m3" by (simp_all add: m1 m2 m3)
  from calculateVideoScore_at_max [OF pos at]
  show "popularityScore (processedVideos videos ! i) = Some (Fin 100)"
    by (simp add: processedVideos_nth [OF i] m1 m2 m3)
qed

lemma example_videos_facts:
  "example_videos \<noteq> []" "list_all counts_ok example_videos"
  "length example_videos = 4"
  "Math_max (map viewCount example_videos) = Fin 100"
  "Math_max (map likeCount example_videos) = Fin 10"
  "Math_max (map commentCount example_videos) = Fin 5"
  "viewCount (example_videos ! 0) = Fin 100" "likeCount (example_videos ! 0) = Fin 10"
  "commentCount (example_videos ! 0) = Fin 5"
  by (simp_all add: example_videos_def example_video_def counts_ok_def count_ok_def Math_max_def
      max2_def)

theorem popularity_score_range_and_top_witness:
  "example_videos \<noteq> [] \<and> list_all counts_ok example_videos
   \<and> viewCount (example_videos ! 0) = Math_max (map viewCount example_videos)
   \<and> likeCount (example_videos ! 0) = Math_max (map likeCount example_videos)
   \<and> commentCount (example_videos ! 0) = Math_max (map commentCount example_videos)
   \<and> js_gt (Math_max (map viewCount example_videos)) (Fin 0)
   \<and> js_gt (Math_max (map likeCount example_videos)) (Fin 0)
   \<and> js_gt (Math_max (map commentCount example_videos)) (Fin 0)
   \<and> popularityScore (processedVideos example_videos ! 0) = Some (Fin 100)
   \<and> (\<exists>n. popularityScore (processedVideos example_videos ! 1) = Some (Fin (of_int n))
          \<and> 0 \<le> n \<and> n \<le> 100)"
proof -
  note f = example_videos_facts
  have ok: "\<forall>v \<in> set example_videos. counts_ok v" using f(2) by (simp add: list_all_iff)
  note range_top = popularity_score_range_and_top [OF f(1) ok]
  have top: "viewCount (example_videos ! 0) = Math_max (map viewCount example_videos)
           \<and> likeCount (example_videos ! 0) = Math_max (map likeCount example_videos)
           \<and> commentCount (example_videos ! 0) = Math_max (map commentCount example_videos)
           \<and> js_gt (Math_max (map viewCount example_videos)) (Fin 0)
           \<and> js_gt (Math_max (map likeCount example_videos)) (Fin 0)
           \<and> js_gt (Math_max (map commentCount example_videos)) (Fin 0)"
    by (simp add: f js_gt_def)
  have "0 < length example_videos" by (simp add: f(3))
  with range_top top have a: "popularityScore (processedVideos example_videos ! 0) = Some (Fin 100)"
    by blast
  have "processedVideos example_videos ! 1 \<in> set (processedVideos example_videos)"
    by (intro nth_mem) (simp add: length_processedVideos f(3))
  with range_top have b: "\<exists>n. popularityScore (processedVideos example_videos ! 1) = Some (Fin (of_int n))
          \<and> 0 \<le> n \<and> n \<le> 100" by blast
  from f(1,2) top a b show ?thesis by blast
qed

text \<open>
  The claim as it is written fails where a maximum is 0: the only video of a
  collection has the maximal counts 10, 0 and 0, and scores 50.
\<close>

theorem popularity_top_counterexample:
  "viewCount (example_video ''a'' 10 0 0 ''PT1M'' ''2024-01-01T00:00:00Z'')
     = Math_max (map viewCount [example_video ''a'' 10 0 0 ''PT1M'' ''2024-01-01T00:00:00Z''])
   \<and> likeCount (example_video ''a'' 10 0 0 ''PT1M'' ''2024-01-01T00:00:00Z'')
     = Math_max (map likeCount [example_video ''a'' 10 0 0 ''PT1M'' ''2024-01-01T00:00:00Z''])
   \<and> commentCount (example_video ''a'' 10 0 0 ''PT1M'' ''2024-01-01T00:00:00Z'')
     = Math_max (map commentCount [example_video ''a'' 10 0 0 ''PT1M'' ''2024-01-01T00:00:00Z''])
   \<and> counts_ok (example_video ''a'' 10 0 0 ''PT1M'' ''2024-01-01T00:00:00Z'')
   \<and> map popularityScore
        (processedVideos [example_video ''a'' 10 0 0 ''PT1M'' ''2024-01-01T00:00:00Z''])
      = [Some (Fin 50)]"
proof -
  have "viewCount (example_video ''a'' 10 0 0 ''PT1M'' ''2024-01-01T00:00:00Z'')
     = Math_max (map viewCount [example_video ''a'' 10 0 0 ''PT1M'' ''2024-01-01T00:00:00Z''])"
    "likeCount (example_video ''a'' 10 0 0 ''PT1M'' ''2024-01-01T00:00:00Z'')
     = Math_max (map likeCount [example_video ''a'' 10 0 0 ''PT1M'' ''2024-01-01T00:00:00Z''])"
    "commentCount (example_video ''a'' 10 0 0 ''PT1M'' ''2024-01-01T00:00:00Z'')
     = Math_max (map commentCount [example_video ''a'' 10 0 0 ''PT1M'' ''2024-01-01T00:00:00Z''])"
    "counts_ok (example_video ''a'' 10 0 0 ''PT1M'' ''2024-01-01T00:00:00Z'')"
    by (simp_all add: example_video_def Math_max_def max2_def counts_ok_def count_ok_def)
  with example_scores show ?thesis by blast
qed





section \<open>Properties of sorting and filtering\<close>

text \<open>
  A comparator that is the difference of two finite keys orders the elements as the
  keys do, and the insertion sort of the model is then the stable sort by that key.
\<close>

lemma sort_insert_key:
  fixes k :: "'a \<Rightarrow> 'k::linorder"
  assumes "\<And>y. y \<in> set ys \<Longrightarrow> js_gt (cmp x y) (Fin 0) = (k y < k x)"
  shows "sort_insert cmp x ys = insort_key k x ys"
  using assms by (induction ys) (auto simp: not_less)

lemma js_sort_key:
  fixes k :: "'a \<Rightarrow> 'k::linorder"
  assumes "\<And>a b. a \<in> set xs \<Longrightarrow> b \<in> set xs \<Longrightarrow> js_gt (cmp a b) (Fin 0) = (k b < k a)"
  shows "js_sort cmp xs = sort_key k xs"
  using assms
proof (induction xs)
  case Nil
  then show ?case by (simp add: js_sort_def)
next
  case (Cons x xs)
  have ih: "js_sort cmp xs = sort_key k xs" using Cons.prems by (intro Cons.IH) simp_all
  have "sort_insert cmp x (sort_key k xs) = insort_key k x (sort_key k xs)"
    using Cons.prems by (intro sort_insert_key) simp_all
  moreover have "js_sort cmp (x # xs) = sort_insert cmp x (js_sort cmp xs)"
    by (simp add: js_sort_def)
  ultimately show ?case by (simp add: ih sort_key_def)
qed

lemma js_sort_desc:
  assumes "\<And>v. v \<in> set xs \<Longrightarrow> \<exists>x. f v = Fin x \<and> on_grid x"
  shows "js_sort (\<lambda>a b. js_sub (f b) (f a)) xs = sort_key (\<lambda>v. case f v of Fin x \<Rightarrow> - x | _ \<Rightarrow> 0) xs"
proof (rule js_sort_key)
  fix a b assume "a \<in> set xs" "b \<in> set xs"
  with assms obtain x y where "f a = Fin x" "on_grid x" "f b = Fin y" "on_grid y" by blast
  then show "js_gt (js_sub (f b) (f a)) (Fin 0)
      = ((case f b of Fin x \<Rightarrow> - x | _ \<Rightarrow> 0) < (case f a of Fin x \<Rightarrow> - x | _ \<Rightarrow> 0))"
    by (simp add: js_gt_sub_grid)
qed

lemma js_sort_asc:
  assumes "\<And>v. v \<in> set xs \<Longrightarrow> \<exists>x. f v = Fin x \<and> on_grid x"
  shows "js_sort (\<lambda>a b. js_sub (f a) (f b)) xs = sort_key (\<lambda>v. case f v of Fin x \<Rightarrow> x | _ \<Rightarrow> 0) xs"
proof (rule js_sort_key)
  fix a b assume "a \<in> set xs" "b \<in> set xs"
  with assms obtain x y where "f a = Fin x" "on_grid x" "f b = Fin y" "on_grid y" by blast
  then show "js_gt (js_sub (f a) (f b)) (Fin 0)
      = ((case f b of Fin x \<Rightarrow> x | _ \<Rightarrow> 0) < (case f a of Fin x \<Rightarrow> x | _ \<Rightarrow> 0))"
    by (simp add: js_gt_sub_grid)
qed

lemma js_sort_desc_filter:
  assumes "\<And>v. v \<in> set xs \<Longrightarrow> \<exists>x. f v = Fin x \<and> on_grid x"
  shows "js_sort (\<lambda>a b. js_sub (f b) (f a)) (filter P xs) = filter P (js_sort (\<lambda>a b. js_sub (f b) (f a)) xs)"
proof -
  have "js_sort (\<lambda>a b. js_sub (f b) (f a)) (filter P xs)
      = sort_key (\<lambda>v. case f v of Fin x \<Rightarrow> - x | _ \<Rightarrow> 0) (filter P xs)"
    using assms by (intro js_sort_desc) simp
  then show ?thesis by (simp add: js_sort_desc [OF assms] filter_sort)
qed

lemma js_sort_asc_filter:
  assumes "\<And>v. v \<in> set xs \<Longrightarrow> \<exists>x. f v = Fin x \<and> on_grid x"
  shows "js_sort (\<lambda>a b. js_sub (f a) (f b)) (filter P xs) = filter P (js_sort (\<lambda>a b. js_sub (f a) (f b)) xs)"
proof -
  have "js_sort (\<lambda>a b. js_sub (f a) (f b)) (filter P xs)
      = sort_key (\<lambda>v. case f v of Fin x \<Rightarrow> x | _ \<Rightarrow> 0) (filter P xs)"
    using assms by (intro js_sort_asc) simp
  then show ?thesis by (simp add: js_sort_asc [OF assms] filter_sort)
qed

lemma count_ok_grid: "count_ok a \<Longrightarrow> \<exists>x. a = Fin x \<and> on_grid x"
proof -
  assume "count_ok a"
  then obtain x where x: "a = Fin x" "of_int \<lfloor>x\<rfloor> = x" by (cases a) (simp_all add: count_ok_def)
  have "on_grid (of_int \<lfloor>x\<rfloor>)" by (rule on_grid_of_int)
  then have "on_grid x" by (simp only: x(2))
  with x(1) show ?thesis by blast
qed

text \<open>
  The three keys of a scored video are finite when its counts are non-negative
  integers and its timestamp is a date.
\<close>

lemma processed_keys:
  assumes "\<forall>v \<in> set videos. counts_ok v \<and> Date_parse host (publishedAt v) \<noteq> None"
    and "s \<in> set (processedVideos videos)"
  shows "\<exists>x. ToNumber (popularityScore s) = Fin x \<and> on_grid x"
    and "\<exists>x. viewCount s = Fin x \<and> on_grid x"
    and "\<exists>x. getTime host (publishedAt s) = Fin x \<and> on_grid x"
proof -
  from assms(1) have ok: "\<forall>v \<in> set videos. counts_ok v" by simp
  from processedVideos_score_set [OF ok assms(2)] obtain n
    where "popularityScore s = Some (Fin (of_int n))" by blast
  then show "\<exists>x. ToNumber (popularityScore s) = Fin x \<and> on_grid x"
    by (simp add: ToNumber_def on_grid_of_int)
  from assms(2) obtain i where i: "i < length videos" and s: "s = processedVideos videos ! i"
    by (auto simp: in_set_conv_nth length_processedVideos)
  have v: "videos ! i \<in> set videos" using i by simp
  have same: "viewCount s = viewCount (videos ! i)" "publishedAt s = publishedAt (videos ! i)"
    by (simp_all add: s processedVideos_nth [OF i])
  from v assms(1) have "count_ok (viewCount (videos ! i))" by (simp add: counts_ok_def)
  then show "\<exists>x. viewCount s = Fin x \<and> on_grid x"
    unfolding same by (rule count_ok_grid)
  from v assms(1) obtain t where "Date_parse host (publishedAt (videos ! i)) = Some t" by auto
  then show "\<exists>x. getTime host (publishedAt s) = Fin x \<and> on_grid x"
    by (simp add: same getTime_def on_grid_of_int)
qed

lemma sort_filter_commute:
  assumes "\<forall>v \<in> set videos. counts_ok v \<and> Date_parse host (publishedAt v) \<noteq> None"
  shows "sortVideos host sortOption (filterVideos filterOption (processedVideos videos))
     = filterVideos filterOption (sortVideos host sortOption (processedVideos videos))"
proof -
  note k = processed_keys [OF assms]
  show ?thesis
    by (cases sortOption; cases filterOption)
       (simp_all add: sortVideos_def filterVideos_def
          js_sort_desc_filter [where f = "\<lambda>v. ToNumber (popularityScore v)", OF k(1)]
          js_sort_desc_filter [where f = viewCount, OF k(2)]
          js_sort_desc_filter [where f = "\<lambda>v. getTime host (publishedAt v)", OF k(3)]
          js_sort_asc_filter [where f = "\<lambda>v. getTime host (publishedAt v)", OF k(3)])
qed

lemma keyword_sort_filter_commute:
  assumes "\<forall>v \<in> set videos. counts_ok v \<and> Date_parse host (publishedAt v) \<noteq> None"
  shows "keyword_sort host sortOption (keyword_filter videoType (processedVideos videos))
     = keyword_filter videoType (keyword_sort host sortOption (processedVideos videos))"
proof -
  note k = processed_keys [OF assms]
  show ?thesis
    by (cases sortOption)
       (simp_all add: keyword_sort_def keyword_filter_def
          js_sort_desc_filter [where f = "\<lambda>v. ToNumber (popularityScore v)", OF k(1)]
          js_sort_desc_filter [where f = viewCount, OF k(2)]
          js_sort_desc_filter [where f = "\<lambda>v. getTime host (publishedAt v)", OF k(3)])
qed

lemma fl_neg_numeral: "(numeral k :: int) < 2 ^ 53 \<Longrightarrow> fl (- numeral k) = Fin (- numeral k)"
  using fl_of_int [of "numeral k"] by (simp add: fl_def js_neg_def)

lemma example_durations:
  "parseDuration ''PT30S'' = Fin 30" "parseDuration ''PT45S'' = Fin 45"
  "parseDuration ''PT2M59S'' = Fin 179" "parseDuration ''PT3M'' = Fin 180"
  "parseDuration ''PT1M'' = Fin 60" "parseDuration ''PT5M'' = Fin 300"
proof -
  have g: "group_ok None" "group_ok (Some ''30'')" "group_ok (Some ''45'')" "group_ok (Some ''2'')"
    "group_ok (Some ''59'')" "group_ok (Some ''3'')" "group_ok (Some ''1'')" "group_ok (Some ''5'')"
    by (simp_all add: group_ok_def digits_ok_def is_digit_def)
  show "parseDuration ''PT30S'' = Fin 30"
    using parseDuration_exact [OF g(1) g(1) g(2)]
    by (simp add: group_text_def group_val_def dec_val_def digit_val_def)
  show "parseDuration ''PT45S'' = Fin 45"
    using parseDuration_exact [OF g(1) g(1) g(3)]
    by (simp add: group_text_def group_val_def dec_val_def digit_val_def)
  show "parseDuration ''PT2M59S'' = Fin 179"
    using parseDuration_exact [OF g(1) g(4) g(5)]
    by (simp add: group_text_def group_val_def dec_val_def digit_val_def)
  show "parseDuration ''PT3M'' = Fin 180"
    using parseDuration_exact [OF g(1) g(6) g(1)]
    by (simp add: group_text_def group_val_def dec_val_def digit_val_def)
  show "parseDuration ''PT1M'' = Fin 60"
    using parseDuration_exact [OF g(1) g(7) g(1)]
    by (simp add: group_text_def group_val_def dec_val_def digit_val_def)
  show "parseDuration ''PT5M'' = Fin 300"
    using parseDuration_exact [OF g(1) g(8) g(1)]
    by (simp add: group_text_def group_val_def dec_val_def digit_val_def)
qed

lemma example_undated_ids:
  "map video_id (sortedVideos example_host Filter_shorts Sort_date_desc (processedVideos example_undated))
     = [''b'', ''a'']"
  "map video_id (filterVideos Filter_shorts
       (sortVideos example_host Sort_date_desc (processedVideos example_undated)))
     = [''a'', ''b'']"
  "map video_id (processedVideos_keyword example_host Type_shorts KSort_date example_undated)
     = [''b'', ''a'']"
  "map video_id (keyword_filter Type_shorts
       (keyword_sort example_host KSort_date (processedVideos example_undated)))
     = [''a'', ''b'']"
  by (simp_all add: sortedVideos_def filterVideos_def sortVideos_def js_sort_def example_undated_def
      processedVideos_keyword_def keyword_filter_def keyword_sort_def
      processedVideos_def example_video_def example_durations Let_def
      getTime_def example_host_def example_parse_def js_sub_def js_neg_def js_gt_def
      fl_numeral fl_neg_numeral)

text \<open>
  Claim C4, refuted as stated. The second of three videos is a long one whose
  timestamp is no date. With the short-form filter and the newest-first order, the
  filter followed by the sort puts the video of the later date first, and the sort
  followed by the filter leaves the two short videos in their original order: every
  comparison with the undated video is \<^verbatim>\<open>NaN\<close>, which moves nothing. Both views
  behave so.
\<close>

theorem filter_sort_counterexample:
  "list_all counts_ok example_undated
   \<and> map video_id (sortedVideos example_host Filter_shorts Sort_date_desc (processedVideos example_undated))
     = [''b'', ''a'']
   \<and> map video_id (filterVideos Filter_shorts
       (sortVideos example_host Sort_date_desc (processedVideos example_undated)))
     = [''a'', ''b'']
   \<and> map video_id (processedVideos_keyword example_host Type_shorts KSort_date example_undated)
     = [''b'', ''a'']
   \<and> map video_id (keyword_filter Type_shorts
       (keyword_sort example_host KSort_date (processedVideos example_undated)))
     = [''a'', ''b'']"
proof -
  have "list_all counts_ok example_undated"
    by (simp add: example_undated_def example_video_def counts_ok_def count_ok_def)
  with example_undated_ids show ?thesis by blast
qed

text \<open>
  Claim C4, amended. For every list of video records whose counts are non-negative
  integers and whose timestamps are dates, every type filter and every sort key,
  filtering the scored videos and then sorting them (what both views do) gives the
  same list as sorting and then filtering.
\<close>

theorem filter_then_sort_eq_sort_then_filter:
  "\<forall>v \<in> set videos. counts_ok v \<and> Date_parse host (publishedAt v) \<noteq> None \<Longrightarrow>
   sortedVideos host filterOption sortOption (processedVideos videos)
     = filterVideos filterOption (sortVideos host sortOption (processedVideos videos))
   \<and> processedVideos_keyword host videoType keywordSort videos
     = keyword_filter videoType (keyword_sort host keywordSort (processedVideos videos))"
proof
  assume ok: "\<forall>v \<in> set videos. counts_ok v \<and> Date_parse host (publishedAt v) \<noteq> None"
  show "sortedVideos host filterOption sortOption (processedVideos videos)
     = filterVideos filterOption (sortVideos host sortOption (processedVideos videos))"
    by (simp add: sortedVideos_def sort_filter_commute [OF ok])
  have "processedVideos [] = []" by (simp add: processedVideos_def)
  then have "keyword_filter videoType (keyword_sort host keywordSort (processedVideos [])) = []"
    by (simp add: keyword_filter_def keyword_sort_def js_sort_def)
  then show "processedVideos_keyword host videoType keywordSort videos
     = keyword_filter videoType (keyword_sort host keywordSort (processedVideos videos))"
    by (cases "videos = []")
       (simp_all add: processedVideos_keyword_def keyword_sort_filter_commute [OF ok])
qed

lemma example_videos_dated:
  "list_all (\<lambda>v. counts_ok v \<and> Date_parse example_host (publishedAt v) \<noteq> None) example_videos"
  by (simp add: example_videos_def example_video_def counts_ok_def count_ok_def example_host_def
      example_parse_def)

lemma example_videos_ids:
  "map video_id (sortedVideos example_host Filter_shorts Sort_views (processedVideos example_videos))
     = [''d'', ''c'', ''b'']"
  "map video_id (processedVideos_keyword example_host Type_video KSort_date example_videos)
     = [''a'']"
  by (simp_all add: sortedVideos_def filterVideos_def sortVideos_def js_sort_def example_videos_def
      processedVideos_keyword_def keyword_filter_def keyword_sort_def
      processedVideos_def example_video_def example_durations Let_def
      getTime_def example_host_def example_parse_def js_sub_def js_neg_def js_gt_def js_ge_def
      fl_numeral fl_neg_numeral)

theorem filter_then_sort_eq_sort_then_filter_witness:
  "list_all (\<lambda>v. counts_ok v \<and> Date_parse example_host (publishedAt v) \<noteq> None) example_videos
   \<and> map video_id (filterVideos Filter_shorts
        (sortVideos example_host Sort_views (processedVideos example_videos)))
     = [''d'', ''c'', ''b'']
   \<and> map video_id (keyword_filter Type_video
        (keyword_sort example_host KSort_date (processedVideos example_videos)))
     = [''a'']"
proof -
  have ok: "\<forall>v \<in> set example_videos. counts_ok v \<and> Date_parse example_host (publishedAt v) \<noteq> None"
    using example_videos_dated by (simp only: list_all_iff)
  from filter_then_sort_eq_sort_then_filter [OF ok, of Filter_shorts Sort_views Type_video KSort_date]
    example_videos_ids example_videos_dated
  show ?thesis by simp
qed

section \<open>Properties of the delimited-text exporter\<close>

lemma join_concat: "join sep (x # xs) = x @ concat (map (\<lambda>y. sep @ y) xs)"
  by (induction xs arbitrary: x) simp_all

lemma join_comma_joined: "join [comma] cells = comma_joined cells"
  by (cases cells) (simp_all add: comma_joined_def join_concat)

lemma replace_quotes_concat:
  "replace_quotes s = concat (map (\<lambda>c. if c = dquote then [dquote, dquote] else [c]) s)"
  by (induction s) simp_all

lemma quoted_source: "[dquote] @ replace_quotes s @ [dquote] = quoted s"
  by (simp add: quoted_def replace_quotes_concat)

lemma downloadCSV_content:
  assumes "data \<noteq> []"
  shows "map_option blob_content (downloadCSV String data filename) = Some (csv_document String data)"
proof -
  from assms obtain first rest where d: "data = first # rest" by (cases data) auto
  have row: "join [comma] (map (\<lambda>v. [dquote] @ replace_quotes (String v) @ [dquote]) (Object_values obj))
               = comma_joined (map (\<lambda>(k, v). quoted (String v)) obj)" for obj :: "(string \<times> 'a) list"
    by (simp add: quoted_def replace_quotes_concat join_comma_joined Object_values_def comp_def
          case_prod_unfold)
  have "map_option blob_content (downloadCSV String data filename)
          = Some (BOM @ join [newline]
              (join [comma] (Object_keys first)
               # map (\<lambda>obj. join [comma]
                   (map (\<lambda>v. [dquote] @ replace_quotes (String v) @ [dquote]) (Object_values obj))) data))"
    by (simp add: downloadCSV_def d Let_def)
  also have "\<dots> = Some (csv_document String data)"
    unfolding row join_concat
    by (simp add: csv_document_def d join_comma_joined Object_keys_def comp_def)
  finally show ?thesis .
qed

text \<open>
  Claim C8, as the code has it. For every non-empty list of records the content of
  the export is the byte-order mark, the header row of the field names of the first
  record, and one row per record, after a line feed each, of the quoted values joined
  by commas, with the quotes inside a value doubled. For the empty list nothing is
  exported.
\<close>

theorem downloadCSV_format:
  "(data \<noteq> [] \<longrightarrow>
      map_option blob_content (downloadCSV String data filename) = Some (csv_document String data))
   \<and> downloadCSV String [] filename = None"
proof (intro conjI impI)
  assume "data \<noteq> []"
  then show "map_option blob_content (downloadCSV String data filename)
               = Some (csv_document String data)"
    by (rule downloadCSV_content)
next
  show "downloadCSV String [] filename = None"
    by (simp add: downloadCSV_def)
qed

theorem downloadCSV_format_witness:
  "example_records \<noteq> []
   \<and> map_option blob_content (downloadCSV id example_records ''videos'')
     = Some (BOM @ ''title,views'' @ [newline]
               @ [dquote, CHR ''a'', dquote, dquote, CHR ''b'', comma, dquote, comma,
                  dquote, CHR ''1'', CHR ''0'', dquote, newline]
               @ [dquote, newline, dquote, comma, dquote, dquote])"
proof -
  have ne: "example_records \<noteq> []" by (simp add: example_records_def)
  with downloadCSV_format [of example_records id "''videos''"]
  have "map_option blob_content (downloadCSV id example_records ''videos'')
          = Some (csv_document id example_records)"
    by blast
  then show ?thesis
    using ne by (simp add: csv_document_def example_records_def comma_joined_def quoted_def)
qed

text \<open>The claim as it is written fails for the empty list: nothing is exported.\<close>

theorem downloadCSV_empty_counterexample:
  "downloadCSV (id :: string \<Rightarrow> string) [] ''videos'' = None"
  by (simp add: downloadCSV_def)

subsection \<open>Reading the export back\<close>

lemma foldr_add_char: "foldr add_char v ((f # fs) # rs) = ((v @ f) # fs) # rs"
  by (induction v) simp_all

lemma csv_fields_quoted:
  "csv_fields Quoted (replace_quotes v @ dquote # rest) = foldr add_char v (csv_fields QuoteSeen rest)"
  by (induction v) simp_all

lemma csv_fields_quoted_field:
  "csv_fields FieldStart (([dquote] @ replace_quotes v @ [dquote]) @ rest)
     = foldr add_char v (csv_fields QuoteSeen rest)"
  using csv_fields_quoted [of v rest] by simp

lemma csv_fields_plain:
  assumes "plain_field k" "m \<noteq> Quoted"
  shows "csv_fields m (k @ rest) = foldr add_char k (csv_fields (if k = [] then m else Unquoted) rest)"
  using assms
proof (induction k arbitrary: m)
  case Nil
  then show ?case by simp
next
  case (Cons c k)
  from Cons.prems have c: "c \<noteq> dquote" "c \<noteq> comma" "c \<noteq> newline" and k: "plain_field k"
    by (auto simp: plain_field_def)
  have "csv_fields m ((c # k) @ rest) = add_char c (csv_fields Unquoted (k @ rest))"
    using c Cons.prems(2) by simp
  also have "csv_fields Unquoted (k @ rest) = foldr add_char k (csv_fields Unquoted rest)"
    using Cons.IH [OF k, of Unquoted] by simp
  finally show ?case by simp
qed

lemma csv_fields_separator:
  assumes "m \<noteq> Quoted"
  shows "csv_fields m (comma # r) = new_field (csv_fields FieldStart r)"
    and "r \<noteq> [] \<Longrightarrow> csv_fields m (newline # r) = [[]] # csv_fields FieldStart r"
  using assms by (simp_all add: new_record_def)

text \<open>A row of quoted values, followed by the end of the text or by a further line.\<close>

lemma csv_fields_row:
  assumes "vs \<noteq> []" and "csv_fields QuoteSeen rest = [[]] # recs"
  shows "csv_fields FieldStart
           (join [comma] (map (\<lambda>v. [dquote] @ replace_quotes v @ [dquote]) vs) @ rest) = vs # recs"
  using assms(1)
proof (induction vs rule: list_nonempty_induct)
  case (single v)
  show ?case
    using csv_fields_quoted_field [of v rest] by (simp add: assms(2) foldr_add_char)
next
  case (cons v vs)
  obtain w ws where vs: "vs = w # ws" using cons.hyps by (cases vs) auto
  let ?q = "\<lambda>v. [dquote] @ replace_quotes v @ [dquote]"
  have "csv_fields FieldStart (join [comma] (map ?q (v # vs)) @ rest)
          = csv_fields FieldStart (?q v @ comma # (join [comma] (map ?q vs) @ rest))"
    by (simp add: vs)
  also have "\<dots> = foldr add_char v (csv_fields QuoteSeen (comma # (join [comma] (map ?q vs) @ rest)))"
    by (rule csv_fields_quoted_field)
  also have "\<dots> = foldr add_char v (new_field (vs # recs))"
    using cons.IH by (simp add: csv_fields_separator)
  also have "\<dots> = (v # vs) # recs"
    by (simp add: foldr_add_char)
  finally show ?case .
qed

lemma csv_fields_header:
  assumes "ks \<noteq> []" and "\<forall>k \<in> set ks. plain_field k" and "rest \<noteq> []"
  shows "csv_fields FieldStart (join [comma] ks @ newline # rest) = ks # csv_fields FieldStart rest"
proof -
  have "csv_fields m (join [comma] ks @ newline # rest) = ks # csv_fields FieldStart rest"
    if "m \<noteq> Quoted" for m
    using assms(1,2) that
  proof (induction ks arbitrary: m rule: list_nonempty_induct)
    case (single k)
    then have k: "plain_field k" by simp
    have "csv_fields (if k = [] then m else Unquoted) (newline # rest) = [[]] # csv_fields FieldStart rest"
      using single.prems(2) assms(3) by (intro csv_fields_separator(2)) simp_all
    then show ?case
      using csv_fields_plain [OF k single.prems(2), of "newline # rest"] by (simp add: foldr_add_char)
  next
    case (cons k ks)
    then have k: "plain_field k" and ks: "\<forall>k \<in> set ks. plain_field k" by simp_all
    obtain w ws where w: "ks = w # ws" using cons.hyps by (cases ks) auto
    let ?rest = "join [comma] ks @ newline # rest"
    have "csv_fields m (join [comma] (k # ks) @ newline # rest) = csv_fields m (k @ comma # ?rest)"
      by (simp add: w)
    also have "\<dots> = foldr add_char k (csv_fields (if k = [] then m else Unquoted) (comma # ?rest))"
      by (rule csv_fields_plain [OF k cons.prems(2)])
    also have "csv_fields (if k = [] then m else Unquoted) (comma # ?rest)
                 = new_field (csv_fields FieldStart ?rest)"
      using cons.prems(2) by (intro csv_fields_separator(1)) simp_all
    also have "csv_fields FieldStart ?rest = ks # csv_fields FieldStart rest"
      using cons.IH [OF ks, of FieldStart] by simp
    finally show ?case by (simp add: foldr_add_char)
  qed
  then show ?thesis by simp
qed

lemma csv_fields_rows:
  assumes "\<forall>vs \<in> set (row # rows). vs \<noteq> []"
  shows "csv_fields FieldStart
           (join [comma] (map (\<lambda>v. [dquote] @ replace_quotes v @ [dquote]) row)
            @ concat (map (\<lambda>vs. [newline] @ join [comma]
                (map (\<lambda>v. [dquote] @ replace_quotes v @ [dquote]) vs)) rows))
         = row # rows"
  using assms
proof (induction rows arbitrary: row)
  case Nil
  then show ?case
    using csv_fields_row [of row "[]" "[]"] by simp
next
  case (Cons next_row rows)
  let ?q = "\<lambda>v. [dquote] @ replace_quotes v @ [dquote]"
  let ?tail = "join [comma] (map ?q next_row) @ concat (map (\<lambda>vs. [newline] @ join [comma] (map ?q vs)) rows)"
  from Cons.prems have ne: "row \<noteq> []" "next_row \<noteq> []" and rest: "\<forall>vs \<in> set (next_row # rows). vs \<noteq> []"
    by simp_all
  from ne(2) obtain v vs where "next_row = v # vs" by (cases next_row) auto
  then have "join [comma] (map ?q next_row) \<noteq> []"
    by (simp add: join_concat)
  then have t: "?tail \<noteq> []" by simp
  have "csv_fields QuoteSeen (newline # ?tail) = [[]] # csv_fields FieldStart ?tail"
    using t by (intro csv_fields_separator(2)) simp_all
  also have "csv_fields FieldStart ?tail = next_row # rows"
    by (rule Cons.IH [OF rest])
  finally have "csv_fields QuoteSeen (newline # ?tail) = [[]] # next_row # rows" .
  from csv_fields_row [OF ne(1) this] show ?case by simp
qed

lemma csv_read_BOM: "rest \<noteq> [] \<Longrightarrow> csv_read (BOM @ rest) = csv_fields FieldStart rest"
  by (simp add: csv_read_def strip_BOM_def BOM_def)

lemma downloadCSV_text:
  assumes "data = first # others"
  shows "map_option blob_content (downloadCSV String data filename)
           = Some (BOM @ join [comma] (Object_keys first)
                @ concat (map (\<lambda>vs. [newline] @ join [comma]
                    (map (\<lambda>v. [dquote] @ replace_quotes v @ [dquote]) vs))
                    (map (\<lambda>obj. map String (Object_values obj)) data)))"
  by (simp add: downloadCSV_def assms Let_def join_concat comp_def)

text \<open>
  Claim C9. The export of a non-empty list of records with at least one field each,
  whose field names hold no quote, comma or line feed, is read back by the reader as
  the header of the field names followed by the values of every record in order,
  whatever characters the values hold; a list of two records with a quote inside a
  value is a case of it.
\<close>

theorem csv_roundtrip:
  "data \<noteq> [] \<Longrightarrow> \<forall>obj \<in> set data. obj \<noteq> []
   \<Longrightarrow> \<forall>k \<in> set (Object_keys (hd data)). plain_field k
   \<Longrightarrow> map_option (\<lambda>d. csv_read (blob_content d)) (downloadCSV String data filename)
         = Some (Object_keys (hd data) # map (\<lambda>obj. map String (Object_values obj)) data)"
proof -
  assume ne: "data \<noteq> []" and fields: "\<forall>obj \<in> set data. obj \<noteq> []"
    and plain: "\<forall>k \<in> set (Object_keys (hd data)). plain_field k"
  from ne obtain first others where d: "data = first # others" by (cases data) auto
  let ?q = "\<lambda>v. [dquote] @ replace_quotes v @ [dquote]"
  let ?row = "\<lambda>obj. map String (Object_values obj)"
  let ?lines = "join [comma] (map ?q (?row first))
                  @ concat (map (\<lambda>vs. [newline] @ join [comma] (map ?q vs)) (map ?row others))"
  have keys: "Object_keys first \<noteq> []" and kplain: "\<forall>k \<in> set (Object_keys first). plain_field k"
    using fields plain by (simp_all add: d Object_keys_def)
  have rows_ne: "\<forall>vs \<in> set (?row first # map ?row others). vs \<noteq> []"
    using fields by (auto simp: d Object_values_def)
  from rows_ne obtain v vs where "?row first = v # vs" by (cases "?row first") auto
  then have "join [comma] (map ?q (?row first)) \<noteq> []" by (simp add: join_concat)
  then have lines_ne: "?lines \<noteq> []" by simp
  have rows: "csv_fields FieldStart ?lines = ?row first # map ?row others"
    by (rule csv_fields_rows [OF rows_ne])
  have content: "map_option blob_content (downloadCSV String data filename)
                = Some (BOM @ (join [comma] (Object_keys first) @ newline # ?lines))"
    using downloadCSV_text [OF d, of String filename] by (simp add: d)
  have "csv_read (BOM @ (join [comma] (Object_keys first) @ newline # ?lines))
          = csv_fields FieldStart (join [comma] (Object_keys first) @ newline # ?lines)"
    by (rule csv_read_BOM) simp
  also have "\<dots> = Object_keys first # csv_fields FieldStart ?lines"
    by (rule csv_fields_header [OF keys kplain lines_ne])
  also have "\<dots> = Object_keys first # map ?row data"
    by (simp only: rows d list.map)
  finally have "csv_read (BOM @ (join [comma] (Object_keys first) @ newline # ?lines))
                  = Object_keys (hd data) # map ?row data"
    by (simp add: d)
  with content show ?thesis
    by (cases "downloadCSV String data filename") auto
qed

theorem csv_roundtrip_witness:
  "example_records \<noteq> []
   \<and> list_all (\<lambda>obj. obj \<noteq> []) example_records
   \<and> list_all plain_field (Object_keys (hd example_records))
   \<and> map_option (\<lambda>d. csv_read (blob_content d)) (downloadCSV id example_records ''videos'')
       = Some [[''title'', ''views''],
               [[CHR ''a'', dquote, CHR ''b'', comma], ''10''],
               [[newline], []]]"
proof -
  have ne: "example_records \<noteq> []" by (simp add: example_records_def)
  have f: "\<forall>obj \<in> set example_records. obj \<noteq> []" by (simp add: example_records_def)
  have p: "\<forall>k \<in> set (Object_keys (hd example_records)). plain_field k"
    by (simp add: example_records_def Object_keys_def plain_field_def)
  from csv_roundtrip [OF ne f p, of id "''videos''"]
  have "map_option (\<lambda>d. csv_read (blob_content d)) (downloadCSV id example_records ''videos'')
       = Some [[''title'', ''views''],
               [[CHR ''a'', dquote, CHR ''b'', comma], ''10''],
               [[newline], []]]"
    by (simp add: example_records_def Object_keys_def Object_values_def)
  with ne f p show ?thesis by (simp add: list_all_iff)
qed

end
